theory Spec2Isabelle
  imports Complex_Main "HOL-Library.Word" "HOL-Library.AList" "HOL-Library.Multiset"
begin

section \<open>Data model of network.go\<close>

text \<open>
  The Go types \<open>neuronID\<close>, \<open>synapseID\<close> and the innovation numbers are \<open>uint64\<close>:
  64-bit words, whose \<open>+\<close> wraps and whose order is the unsigned one.  The field
  \<open>generation\<close> is a Go \<open>int\<close>, also a 64-bit word (its \<open>+ 1\<close> wraps).  A \<open>float64\<close>
  is modelled by a real number: rounding is outside the model.

  Neurons and synapses are heap objects reached through pointers (\<open>*neuron\<close>,
  \<open>*synapse\<close>); a pointer is an address into one of two stores, the nil pointer is
  \<open>None\<close>.  The record fields carry the prefix \<open>n_\<close> or \<open>s_\<close> since \<open>id\<close>, \<open>sum\<close>,
  \<open>in\<close> and \<open>value\<close> are taken in Isabelle.
\<close>

type_synonym neuronID = "64 word"
type_synonym synapseID = "64 word"
type_synonym naddr = nat
type_synonym saddr = nat

datatype neuronKind = sensorNeuron | outputNeuron | hiddenNeuron

record synapse =
  s_id :: synapseID
  s_in :: neuronID
  s_out :: neuronID
  s_weight :: real
  s_enabled :: bool
  s_innovation :: "64 word"

record neuron =
  n_id :: neuronID
  n_value :: real
  n_innovation :: "64 word"
  n_kind :: neuronKind
  n_future :: real
  n_sum :: real
  n_visited :: bool
  n_seen :: bool

text \<open>The interface \<open>gene\<close> holds a \<open>*neuron\<close> or a \<open>*synapse\<close>.\<close>

datatype gene = NeuronGene naddr | SynapseGene saddr

text \<open>
  A Go map is an association list with distinct keys: \<open>m[k]\<close> is \<open>map_of m k\<close>,
  \<open>m[k] = v\<close> is \<open>AList.update k v m\<close>.
\<close>

record organism =
  sensors :: "neuronID list"
  outputs :: "neuronID list"
  neurons :: "(neuronID \<times> naddr) list"
  synapses :: "(synapseID \<times> saddr) list"
  connections :: "(neuronID \<times> synapseID list) list"
  genes :: "gene list"
  generation :: "64 word"
  fitness :: real

text \<open>
  The global state: the two object stores with their allocation marks (every address
  below the mark is allocated), and the two global counters.
\<close>

record state =
  nheap :: "naddr \<Rightarrow> neuron"
  nnext :: naddr
  sheap :: "saddr \<Rightarrow> synapse"
  snext :: saddr
  idCount :: "64 word"
  innovationCount :: "64 word"

text \<open>The part of \<open>config.OrganismConfig\<close> that network.go reads.\<close>

record OrganismConfig =
  SynapseSplitMutProb :: real
  SynapseActivityMutProb :: real
  SynapseWeightMutProp :: real
  SynapseWeightBound :: real
  actFunc :: "real \<Rightarrow> real"

text \<open>
  What stops the program: the Go panics (a nil pointer dereference, a division by
  zero, an index out of range, a \<open>make\<close> whose length is out of range), and the four
  \<open>log.Fatal\<close> calls of network.go.
\<close>

datatype error =
  NilDereference
  | DivideByZero
  | IndexOutOfRange
  | FatalMateArity
  | FatalOutOfGenes
  | FatalInputArity
  | FatalVisitedNeuron
  | MakeSliceLen

section \<open>Identity allocator\<close>

definition nextInnovation :: "state \<Rightarrow> 64 word \<times> state" where
  "nextInnovation s =
     (innovationCount s + 1, s\<lparr>innovationCount := innovationCount s + 1\<rparr>)"

definition nextID :: "state \<Rightarrow> 64 word \<times> state" where
  "nextID s = (idCount s + 1, s\<lparr>idCount := idCount s + 1\<rparr>)"

section \<open>Gene primitives\<close>

definition alloc_neuron :: "neuron \<Rightarrow> state \<Rightarrow> naddr \<times> state" where
  "alloc_neuron n s = (nnext s, s\<lparr>nheap := (nheap s)(nnext s := n), nnext := Suc (nnext s)\<rparr>)"

definition alloc_synapse :: "synapse \<Rightarrow> state \<Rightarrow> saddr \<times> state" where
  "alloc_synapse y s = (snext s, s\<lparr>sheap := (sheap s)(snext s := y), snext := Suc (snext s)\<rparr>)"

text \<open>
  \<open>newSynapse(in, out)\<close>, for non-nil \<open>in\<close> and \<open>out\<close>; the callers below raise the
  nil dereference of \<open>in.id\<close> and \<open>out.id\<close>.
\<close>

definition newSynapse :: "naddr \<Rightarrow> naddr \<Rightarrow> state \<Rightarrow> saddr \<times> state" where
  "newSynapse i out s =
     (let (k, s1) = nextID s;
          (v, s2) = nextInnovation s1
      in alloc_synapse
           \<lparr>s_id = k, s_in = n_id (nheap s i), s_out = n_id (nheap s out),
            s_weight = 1, s_enabled = True, s_innovation = v\<rparr> s2)"

definition synapse_clone :: "saddr \<Rightarrow> state \<Rightarrow> saddr \<times> state" where
  "synapse_clone p s = alloc_synapse (sheap s p) s"

definition getInnovation :: "state \<Rightarrow> gene \<Rightarrow> 64 word" where
  "getInnovation s g =
     (case g of NeuronGene p \<Rightarrow> n_innovation (nheap s p)
              | SynapseGene p \<Rightarrow> s_innovation (sheap s p))"

definition synapse_toggleEnabled :: "saddr \<Rightarrow> state \<Rightarrow> state" where
  "synapse_toggleEnabled p s =
     s\<lparr>sheap := (sheap s)(p := (sheap s p)\<lparr>s_enabled := \<not> s_enabled (sheap s p)\<rparr>)\<rparr>"

text \<open>
  \<open>mutateWeight\<close> on a synapse; \<open>r\<close> is what the call of \<open>RandFloat64()\<close> returns.
\<close>

definition mutateWeight_value :: "OrganismConfig \<Rightarrow> real \<Rightarrow> real" where
  "mutateWeight_value cfg r = 2 * ((r - 0.5) * SynapseWeightBound cfg)"

definition synapse_mutateWeight :: "OrganismConfig \<Rightarrow> real \<Rightarrow> saddr \<Rightarrow> state \<Rightarrow> state" where
  "synapse_mutateWeight cfg r p s =
     s\<lparr>sheap := (sheap s)(p := (sheap s p)\<lparr>s_weight := mutateWeight_value cfg r\<rparr>)\<rparr>"

definition newNeuron :: "neuronKind \<Rightarrow> state \<Rightarrow> naddr \<times> state" where
  "newNeuron k s =
     (let (i, s1) = nextID s;
          (v, s2) = nextInnovation s1
      in alloc_neuron
           \<lparr>n_id = i, n_value = 0, n_innovation = v, n_kind = k, n_future = 0,
            n_sum = 0, n_visited = False, n_seen = False\<rparr> s2)"

definition newSensorNeuron :: "state \<Rightarrow> naddr \<times> state" where
  "newSensorNeuron = newNeuron sensorNeuron"

definition newOutputNeuron :: "state \<Rightarrow> naddr \<times> state" where
  "newOutputNeuron = newNeuron outputNeuron"

definition newHiddenNeuron :: "state \<Rightarrow> naddr \<times> state" where
  "newHiddenNeuron = newNeuron hiddenNeuron"

definition neuron_clone :: "naddr \<Rightarrow> state \<Rightarrow> naddr \<times> state" where
  "neuron_clone p s = alloc_neuron (nheap s p) s"

section \<open>Genome container\<close>

text \<open>
  \<open>make([]T, n)\<close> panics (makeslice: len out of range) when \<open>n\<close> is negative or the
  \<open>n\<close> elements take more bytes than the runtime allocates; that number of bytes is
  the parameter \<open>maxAlloc\<close>.
\<close>

definition makeslice_ok :: "nat \<Rightarrow> nat \<Rightarrow> int \<Rightarrow> bool" where
  "makeslice_ok maxAlloc elemSize n \<longleftrightarrow> 0 \<le> n \<and> int elemSize * n \<le> int maxAlloc"

text \<open>Multiplication of Go's \<open>int\<close>, which is 64 bits wide, wraps.\<close>

definition int_mul :: "int \<Rightarrow> int \<Rightarrow> int" where
  "int_mul x y = sint (word_of_int (x * y) :: 64 word)"

text \<open>What \<open>_newOrganism\<close> returns: empty slices and maps, generation and fitness zero.\<close>

definition empty_organism :: organism where
  "empty_organism =
     \<lparr>sensors = [], outputs = [], neurons = [], synapses = [], connections = [],
      genes = [], generation = 0, fitness = 0\<rparr>"

text \<open>
  \<open>_newOrganism\<close>: three slices are made and cut to length 0, of \<open>nInputs\<close> and of
  \<open>nOutputs\<close> ids (\<open>uint64\<close>, 8 bytes) and of \<open>nInputs * nOutputs\<close> genes (an interface
  value, 16 bytes).  The capacity of a slice is not modelled, the panic of \<open>make\<close> is.
\<close>

definition newOrganism_empty :: "nat \<Rightarrow> int \<Rightarrow> int \<Rightarrow> error + organism" where
  "newOrganism_empty maxAlloc nInputs nOutputs =
     (if \<not> makeslice_ok maxAlloc 8 nInputs then Inl MakeSliceLen
      else if \<not> makeslice_ok maxAlloc 8 nOutputs then Inl MakeSliceLen
      else if \<not> makeslice_ok maxAlloc 16 (int_mul nInputs nOutputs) then Inl MakeSliceLen
      else Inr empty_organism)"

definition addNeuron :: "naddr \<Rightarrow> state \<Rightarrow> organism \<Rightarrow> organism" where
  "addNeuron p s org =
     (let n = nheap s p;
          org1 = org\<lparr>neurons := AList.update (n_id n) p (neurons org),
                     genes := genes org @ [NeuronGene p]\<rparr>
      in case n_kind n of
           sensorNeuron \<Rightarrow> org1\<lparr>sensors := sensors org1 @ [n_id n]\<rparr>
         | outputNeuron \<Rightarrow> org1\<lparr>outputs := outputs org1 @ [n_id n]\<rparr>
         | hiddenNeuron \<Rightarrow> org1)"

text \<open>A missing key of \<open>org.connections\<close> reads as the nil slice, which appends as \<open>[]\<close>.\<close>

definition conns :: "organism \<Rightarrow> neuronID \<Rightarrow> synapseID list" where
  "conns org k = (case map_of (connections org) k of None \<Rightarrow> [] | Some l \<Rightarrow> l)"

definition addSynapse :: "saddr \<Rightarrow> state \<Rightarrow> organism \<Rightarrow> organism" where
  "addSynapse p s org =
     (let y = sheap s p
      in org\<lparr>synapses := AList.update (s_id y) p (synapses org),
              connections :=
                AList.update (s_in y) (conns org (s_in y) @ [s_id y]) (connections org),
              genes := genes org @ [SynapseGene p]\<rparr>)"

definition getNeuron :: "organism \<Rightarrow> neuronID \<Rightarrow> naddr option" where
  "getNeuron org k = map_of (neurons org) k"

definition getSynapse :: "organism \<Rightarrow> synapseID \<Rightarrow> saddr option" where
  "getSynapse org k = map_of (synapses org) k"

text \<open>
  \<open>synapseEndpoints\<close> reads \<open>synapse.in\<close> through the pointer that \<open>getSynapse\<close>
  returns: on nil this is a panic.
\<close>

definition synapseEndpoints ::
  "organism \<Rightarrow> state \<Rightarrow> synapseID \<Rightarrow> error + (naddr option \<times> naddr option)" where
  "synapseEndpoints org s k =
     (case getSynapse org k of
        None \<Rightarrow> Inl NilDereference
      | Some p \<Rightarrow>
          Inr (map_of (neurons org) (s_in (sheap s p)),
               map_of (neurons org) (s_out (sheap s p))))"

definition toggleEnabled :: "organism \<Rightarrow> synapseID \<Rightarrow> state \<Rightarrow> error + state" where
  "toggleEnabled org k s =
     (case map_of (synapses org) k of
        None \<Rightarrow> Inl NilDereference
      | Some p \<Rightarrow> Inr (synapse_toggleEnabled p s))"

definition mutateWeight ::
  "OrganismConfig \<Rightarrow> real \<Rightarrow> organism \<Rightarrow> synapseID \<Rightarrow> state \<Rightarrow> error + state" where
  "mutateWeight cfg r org k s =
     (case map_of (synapses org) k of
        None \<Rightarrow> Inl NilDereference
      | Some p \<Rightarrow> Inr (synapse_mutateWeight cfg r p s))"

text \<open>The state before anything is allocated; Go memory starts zeroed.\<close>

definition zero_neuron :: neuron where
  "zero_neuron =
     \<lparr>n_id = 0, n_value = 0, n_innovation = 0, n_kind = sensorNeuron, n_future = 0,
      n_sum = 0, n_visited = False, n_seen = False\<rparr>"

definition zero_synapse :: synapse where
  "zero_synapse =
     \<lparr>s_id = 0, s_in = 0, s_out = 0, s_weight = 0, s_enabled = False, s_innovation = 0\<rparr>"

definition init_state :: state where
  "init_state =
     \<lparr>nheap = (\<lambda>_. zero_neuron), nnext = 0, sheap = (\<lambda>_. zero_synapse), snext = 0,
      idCount = 0, innovationCount = 0\<rparr>"

section \<open>Propagation engine\<close>

definition upd_neuron :: "naddr \<Rightarrow> (neuron \<Rightarrow> neuron) \<Rightarrow> state \<Rightarrow> state" where
  "upd_neuron p f s = s\<lparr>nheap := (nheap s)(p := f (nheap s p))\<rparr>"

text \<open>
  The inner loop of \<open>propagate\<close>, over the outgoing synapse ids of the popped neuron
  \<open>n\<close> (at address \<open>p\<close>); it carries the queue and the state.
\<close>

fun fire ::
  "organism \<Rightarrow> naddr \<Rightarrow> synapseID list \<Rightarrow> naddr option list \<times> state
     \<Rightarrow> error + (naddr option list \<times> state)" where
  "fire org p [] (q, s) = Inr (q, s)"
| "fire org p (k # ks) (q, s) =
     (case getSynapse org k of
        None \<Rightarrow> Inl NilDereference
      | Some y \<Rightarrow>
          if s_enabled (sheap s y) then
            (let signal = n_value (nheap s p) * s_weight (sheap s y)
             in case map_of (neurons org) (s_out (sheap s y)) of
                  None \<Rightarrow> Inl NilDereference
                | Some t \<Rightarrow>
                    if n_visited (nheap s t) then
                      fire org p ks
                        (q, upd_neuron t (\<lambda>n. n\<lparr>n_future := n_future n + signal\<rparr>) s)
                    else
                      (let s1 = upd_neuron t (\<lambda>n. n\<lparr>n_sum := n_sum n + signal\<rparr>) s
                       in if \<not> n_seen (nheap s1 t) then
                            fire org p ks
                              (q @ [Some t], upd_neuron t (\<lambda>n. n\<lparr>n_seen := True\<rparr>) s1)
                          else fire org p ks (q, s1)))
          else fire org p ks (q, s))"


text \<open>The neurons of the genome not yet marked \<open>seen\<close>: what bounds the traversal.\<close>

definition unseen :: "organism \<Rightarrow> state \<Rightarrow> nat" where
  "unseen org s = card {t \<in> snd ` set (neurons org). \<not> n_seen (nheap s t)}"

lemma nheap_upd_neuron [simp]:
  "nheap (upd_neuron t f s) u = (if u = t then f (nheap s t) else nheap s u)"
  by (simp add: upd_neuron_def)

lemma sheap_upd_neuron [simp]: "sheap (upd_neuron t f s) = sheap s"
  by (simp add: upd_neuron_def)

lemma unseen_upd_same:
  assumes "n_seen (f (nheap s t)) = n_seen (nheap s t)"
  shows "unseen org (upd_neuron t f s) = unseen org s"
proof -
  have "\<And>u. n_seen (nheap (upd_neuron t f s) u) = n_seen (nheap s u)"
    using assms by simp
  then show ?thesis unfolding unseen_def by simp
qed

lemma unseen_mark:
  assumes "t \<in> snd ` set (neurons org)" and "\<not> n_seen (nheap s t)"
  shows "Suc (unseen org (upd_neuron t (\<lambda>n. n\<lparr>n_seen := True\<rparr>) s)) = unseen org s"
proof -
  let ?A = "{u \<in> snd ` set (neurons org). \<not> n_seen (nheap s u)}"
  let ?s' = "upd_neuron t (\<lambda>n. n\<lparr>n_seen := True\<rparr>) s"
  have fin: "finite ?A" by simp
  have mem: "t \<in> ?A" using assms by simp
  have "{u \<in> snd ` set (neurons org). \<not> n_seen (nheap ?s' u)} = ?A - {t}"
    by auto
  then have "unseen org ?s' = card (?A - {t})" unfolding unseen_def by simp
  moreover have "Suc (card (?A - {t})) = card ?A"
    using fin mem by (rule card_Suc_Diff1)
  ultimately show ?thesis unfolding unseen_def by simp
qed

lemma fire_measure:
  "fire org p ks (q, s) = Inr (q', s') \<Longrightarrow>
     unseen org s' + length q' = unseen org s + length q"
proof (induction ks arbitrary: q s)
  case Nil
  then show ?case by simp
next
  case (Cons k ks)
  show ?case
  proof (cases "getSynapse org k")
    case None
    with Cons.prems show ?thesis by simp
  next
    case (Some y)
    show ?thesis
    proof (cases "s_enabled (sheap s y)")
      case False
      with Some Cons.prems have "fire org p ks (q, s) = Inr (q', s')" by simp
      then show ?thesis by (rule Cons.IH)
    next
      case en: True
      show ?thesis
      proof (cases "map_of (neurons org) (s_out (sheap s y))")
        case None
        with Some en Cons.prems show ?thesis by simp
      next
        case tg: (Some t)
        let ?sig = "n_value (nheap s p) * s_weight (sheap s y)"
        have tin: "t \<in> snd ` set (neurons org)"
          using map_of_SomeD [OF tg] by force
        show ?thesis
        proof (cases "n_visited (nheap s t)")
          case True
          let ?s1 = "upd_neuron t (\<lambda>n. n\<lparr>n_future := n_future n + ?sig\<rparr>) s"
          from Some en tg True Cons.prems
          have "fire org p ks (q, ?s1) = Inr (q', s')" by simp
          from Cons.IH [OF this] show ?thesis by (simp add: unseen_upd_same)
        next
          case nv: False
          let ?s1 = "upd_neuron t (\<lambda>n. n\<lparr>n_sum := n_sum n + ?sig\<rparr>) s"
          have u1: "unseen org ?s1 = unseen org s" by (simp add: unseen_upd_same)
          have seen1: "n_seen (nheap ?s1 t) = n_seen (nheap s t)"
            by simp
          show ?thesis
          proof (cases "n_seen (nheap s t)")
            case True
            with Some en tg nv seen1 Cons.prems
            have "fire org p ks (q, ?s1) = Inr (q', s')" by (simp add: Let_def)
            from Cons.IH [OF this] u1 show ?thesis by simp
          next
            case False
            let ?s2 = "upd_neuron t (\<lambda>n. n\<lparr>n_seen := True\<rparr>) ?s1"
            from Some en tg nv seen1 False Cons.prems
            have "fire org p ks (q @ [Some t], ?s2) = Inr (q', s')" by (simp add: Let_def)
            from Cons.IH [OF this]
            have "unseen org s' + length q' = unseen org ?s2 + Suc (length q)" by simp
            moreover have "Suc (unseen org ?s2) = unseen org ?s1"
              using tin False seen1 by (intro unseen_mark) simp_all
            ultimately show ?thesis using u1 by simp
          qed
        qed
      qed
    qed
  qed
qed

text \<open>
  The outer loop of \<open>propagate\<close>.  The queue holds the pointers pushed, nil included;
  \<open>Pop\<close> takes the head.
\<close>

function propagate_loop ::
  "OrganismConfig \<Rightarrow> organism \<Rightarrow> naddr option list \<Rightarrow> state \<Rightarrow> error + state" where
  "propagate_loop cfg org [] s = Inr s"
| "propagate_loop cfg org (None # q) s = Inl NilDereference"
| "propagate_loop cfg org (Some p # q) s =
     (if n_visited (nheap s p) then Inl FatalVisitedNeuron
      else
        (case fire org p (conns org (n_id (nheap s p)))
                (q, upd_neuron p
                      (\<lambda>n. n\<lparr>n_visited := True, n_value := actFunc cfg (n_sum n)\<rparr>) s) of
           Inl e \<Rightarrow> Inl e
         | Inr (q', s') \<Rightarrow> propagate_loop cfg org q' s'))"
  by pat_completeness auto
termination
proof (relation "measure (\<lambda>(cfg, org, q, s). unseen org s + length q)")
  show "wf (measure (\<lambda>(cfg, org, q, s). unseen org s + length q))" by simp
next
  fix cfg :: OrganismConfig and org :: organism and p :: naddr
    and q :: "naddr option list" and s :: state and x2 :: "naddr option list \<times> state"
    and q' :: "naddr option list" and s' :: state
  assume "fire org p (conns org (n_id (nheap s p)))
            (q, upd_neuron p (\<lambda>n. n\<lparr>n_visited := True, n_value := actFunc cfg (n_sum n)\<rparr>) s)
          = Inr x2"
    and "(q', s') = x2"
  then have "fire org p (conns org (n_id (nheap s p)))
            (q, upd_neuron p (\<lambda>n. n\<lparr>n_visited := True, n_value := actFunc cfg (n_sum n)\<rparr>) s)
          = Inr (q', s')" by simp
  from fire_measure [OF this]
  show "((cfg, org, q', s'), (cfg, org, Some p # q, s))
          \<in> measure (\<lambda>(cfg, org, q, s). unseen org s + length q)"
    by (simp add: unseen_upd_same)
qed


definition propagate :: "OrganismConfig \<Rightarrow> organism \<Rightarrow> state \<Rightarrow> error + state" where
  "propagate cfg org s =
     propagate_loop cfg org (map (\<lambda>k. map_of (neurons org) k) (sensors org)) s"

definition clear_neuron :: "neuron \<Rightarrow> neuron" where
  "clear_neuron n = n\<lparr>n_sum := n_future n, n_future := 0, n_visited := False, n_seen := False\<rparr>"

fun clear_all :: "(neuronID \<times> naddr) list \<Rightarrow> state \<Rightarrow> state" where
  "clear_all [] s = s"
| "clear_all ((k, p) # al) s = clear_all al (upd_neuron p clear_neuron s)"

fun add_inputs :: "organism \<Rightarrow> (neuronID \<times> real) list \<Rightarrow> state \<Rightarrow> error + state" where
  "add_inputs org [] s = Inr s"
| "add_inputs org ((k, x) # kxs) s =
     (case map_of (neurons org) k of
        None \<Rightarrow> Inl NilDereference
      | Some p \<Rightarrow> add_inputs org kxs (upd_neuron p (\<lambda>n. n\<lparr>n_sum := n_sum n + x\<rparr>) s))"

fun read_outputs :: "organism \<Rightarrow> neuronID list \<Rightarrow> state \<Rightarrow> error + real list" where
  "read_outputs org [] s = Inr []"
| "read_outputs org (k # ks) s =
     (case map_of (neurons org) k of
        None \<Rightarrow> Inl NilDereference
      | Some p \<Rightarrow>
          (case read_outputs org ks s of
             Inl e \<Rightarrow> Inl e
           | Inr out \<Rightarrow> Inr (n_value (nheap s p) # out)))"

text \<open>
  \<open>process\<close>.  The first loop ranges over the map \<open>org.neurons\<close>; the second pairs the
  sensor ids with the inputs, which are equally many after the arity check.
\<close>

definition process ::
  "OrganismConfig \<Rightarrow> organism \<Rightarrow> real list \<Rightarrow> state \<Rightarrow> error + (real list \<times> state)" where
  "process cfg org input s =
     (if length input \<noteq> length (sensors org) then Inl FatalInputArity
      else
        (case add_inputs org (zip (sensors org) input) (clear_all (neurons org) s) of
           Inl e \<Rightarrow> Inl e
         | Inr s2 \<Rightarrow>
             (case propagate cfg org s2 of
                Inl e \<Rightarrow> Inl e
              | Inr s3 \<Rightarrow>
                  (case read_outputs org (outputs org) s3 of
                     Inl e \<Rightarrow> Inl e
                   | Inr out \<Rightarrow> Inr (out, s3)))))"

text \<open>A sequence of \<open>process\<close> calls on one genome, collecting the outputs.\<close>

fun process_seq ::
  "OrganismConfig \<Rightarrow> organism \<Rightarrow> real list list \<Rightarrow> state
     \<Rightarrow> error + (real list list \<times> state)" where
  "process_seq cfg org [] s = Inr ([], s)"
| "process_seq cfg org (i # is) s =
     (case process cfg org i s of
        Inl e \<Rightarrow> Inl e
      | Inr (out, s1) \<Rightarrow>
          (case process_seq cfg org is s1 of
             Inl e \<Rightarrow> Inl e
           | Inr (outs, s2) \<Rightarrow> Inr (out # outs, s2)))"

text \<open>
  The loop of \<open>TestOrganismClone\<close>: every input is processed by \<open>a\<close> and then by \<open>b\<close>.
\<close>

fun process_both ::
  "OrganismConfig \<Rightarrow> organism \<Rightarrow> organism \<Rightarrow> real list list \<Rightarrow> state
     \<Rightarrow> error + ((real list \<times> real list) list \<times> state)" where
  "process_both cfg a b [] s = Inr ([], s)"
| "process_both cfg a b (i # is) s =
     (case process cfg a i s of
        Inl e \<Rightarrow> Inl e
      | Inr (outa, s1) \<Rightarrow>
          (case process cfg b i s1 of
             Inl e \<Rightarrow> Inl e
           | Inr (outb, s2) \<Rightarrow>
               (case process_both cfg a b is s2 of
                  Inl e \<Rightarrow> Inl e
                | Inr (outs, s3) \<Rightarrow> Inr ((outa, outb) # outs, s3))))"

section \<open>Crossover engine\<close>

text \<open>
  The end of the loop body of \<open>mate\<close>: the inherited gene is copied into a fresh
  object, which is added to the offspring.
\<close>

definition inherit :: "gene \<Rightarrow> organism \<times> state \<Rightarrow> organism \<times> state" where
  "inherit g os =
     (case os of (offspring, s) \<Rightarrow>
        (case g of
           NeuronGene p \<Rightarrow>
             (let (c, s1) = alloc_neuron (nheap s p) s in (addNeuron c s1 offspring, s1))
         | SynapseGene p \<Rightarrow>
             (let (c, s1) = alloc_synapse (sheap s p) s in (addSynapse c s1 offspring, s1))))"

text \<open>
  One iteration of the loop of \<open>mate\<close>, on the cursors \<open>aIdx\<close> and \<open>bIdx\<close>, the
  offspring and the state.  A nil \<open>aGene\<close> or \<open>bGene\<close> is \<open>None\<close>.  The last \<open>else\<close> of
  the comparison leaves \<open>inheritance\<close> nil, and the type switch then does nothing.
\<close>

definition mate_step ::
  "organism \<Rightarrow> organism \<Rightarrow> nat \<times> nat \<times> organism \<times> state
     \<Rightarrow> error + (nat \<times> nat \<times> organism \<times> state)" where
  "mate_step a b st =
     (case st of (aIdx, bIdx, offspring, s) \<Rightarrow>
        (let aGene = (if aIdx < length (genes a) then Some (genes a ! aIdx) else None);
             bGene = (if bIdx < length (genes b) then Some (genes b ! bIdx) else None)
         in case aGene of
              Some ag \<Rightarrow>
                (case bGene of
                   Some bg \<Rightarrow>
                     (let aInov = getInnovation s ag;
                          bInov = getInnovation s bg
                      in if aInov = bInov then
                           (if fitness a > fitness b
                            then Inr (aIdx + 1, bIdx + 1, inherit ag (offspring, s))
                            else Inr (aIdx + 1, bIdx + 1, inherit bg (offspring, s)))
                         else if aInov < bInov then
                           Inr (aIdx + 1, bIdx, inherit ag (offspring, s))
                         else if bInov < aInov then
                           Inr (aIdx, bIdx + 1, inherit bg (offspring, s))
                         else Inr (aIdx, bIdx, offspring, s))
                 | None \<Rightarrow> Inr (aIdx + 1, bIdx, inherit ag (offspring, s)))
            | None \<Rightarrow>
                (case bGene of
                   Some bg \<Rightarrow> Inr (aIdx, bIdx + 1, inherit bg (offspring, s))
                 | None \<Rightarrow> Inl FatalOutOfGenes)))"

lemma mate_step_progress:
  assumes "mate_step a b (aIdx, bIdx, off, s) = Inr (aIdx', bIdx', off', s')"
  shows "(length (genes a) - aIdx') + (length (genes b) - bIdx')
           < (length (genes a) - aIdx) + (length (genes b) - bIdx)"
  using assms
  by (auto simp: mate_step_def Let_def split: if_splits)

function mate_loop ::
  "organism \<Rightarrow> organism \<Rightarrow> nat \<times> nat \<times> organism \<times> state \<Rightarrow> error + (organism \<times> state)" where
  "mate_loop a b (aIdx, bIdx, offspring, s) =
     (if aIdx < length (genes a) \<or> bIdx < length (genes b) then
        (case mate_step a b (aIdx, bIdx, offspring, s) of
           Inl e \<Rightarrow> Inl e
         | Inr st \<Rightarrow> mate_loop a b st)
      else Inr (offspring, s))"
  by pat_completeness auto
termination
proof (relation "measure (\<lambda>(a, b, aIdx, bIdx, off, s).
          (length (genes a) - aIdx) + (length (genes b) - bIdx))")
  show "wf (measure (\<lambda>(a, b, aIdx, bIdx, off, s).
          (length (genes a) - aIdx) + (length (genes b) - bIdx)))" by simp
next
  fix a b :: organism and aIdx bIdx :: nat and offspring :: organism and s :: state
    and x2 :: "nat \<times> nat \<times> organism \<times> state"
  assume "mate_step a b (aIdx, bIdx, offspring, s) = Inr x2"
  then show "((a, b, x2), (a, b, aIdx, bIdx, offspring, s))
          \<in> measure (\<lambda>(a, b, aIdx, bIdx, off, s).
               (length (genes a) - aIdx) + (length (genes b) - bIdx))"
    using mate_step_progress [of a b aIdx bIdx offspring s]
    by (cases x2) auto
qed

definition mate ::
  "nat \<Rightarrow> organism \<Rightarrow> organism \<Rightarrow> state \<Rightarrow> error + (organism \<times> state)" where
  "mate maxAlloc a b s =
     (if length (sensors a) \<noteq> length (sensors b) \<or> length (outputs a) \<noteq> length (outputs b)
      then Inl FatalMateArity
      else
        (case newOrganism_empty maxAlloc (int (length (sensors a))) (int (length (outputs a))) of
           Inl e \<Rightarrow> Inl e
         | Inr offspring \<Rightarrow>
             mate_loop a b (0, 0, offspring\<lparr>generation := generation a + 1\<rparr>, s)))"

text \<open>\<open>clone\<close> of an organism: each gene is cloned and added, in gene order.\<close>

fun clone_loop :: "gene list \<Rightarrow> organism \<times> state \<Rightarrow> organism \<times> state" where
  "clone_loop [] cs = cs"
| "clone_loop (NeuronGene p # gs) (clone, s) =
     (let (c, s1) = neuron_clone p s in clone_loop gs (addNeuron c s1 clone, s1))"
| "clone_loop (SynapseGene p # gs) (clone, s) =
     (let (c, s1) = synapse_clone p s in clone_loop gs (addSynapse c s1 clone, s1))"

definition clone :: "nat \<Rightarrow> organism \<Rightarrow> state \<Rightarrow> error + (organism \<times> state)" where
  "clone maxAlloc org s =
     (case newOrganism_empty maxAlloc (int (length (sensors org))) (int (length (outputs org))) of
        Inl e \<Rightarrow> Inl e
      | Inr c \<Rightarrow> Inr (clone_loop (genes org) (c, s)))"

text \<open>
  \<open>newOrganism\<close>.  The arguments are Go ints; after \<open>_newOrganism\<close> has returned they
  are not negative, and the loops count in naturals.  The third loop reads
  \<open>org.sensors[i % nInputs]\<close> and \<open>org.outputs[i % nOutputs]\<close>: \<open>%\<close> panics on a zero
  divisor, the index on a short slice, and \<open>newSynapse\<close> on a nil neuron.
\<close>

fun add_new_neurons ::
  "(state \<Rightarrow> naddr \<times> state) \<Rightarrow> nat \<Rightarrow> organism \<times> state \<Rightarrow> organism \<times> state" where
  "add_new_neurons new 0 os = os"
| "add_new_neurons new (Suc n) (org, s) =
     (let (p, s1) = new s in add_new_neurons new n (addNeuron p s1 org, s1))"

definition match_step ::
  "nat \<Rightarrow> nat \<Rightarrow> nat \<Rightarrow> organism \<times> state \<Rightarrow> error + (organism \<times> state)" where
  "match_step nInputs nOutputs i os =
     (case os of (org, s) \<Rightarrow>
        if nInputs = 0 then Inl DivideByZero
        else if length (sensors org) \<le> i mod nInputs then Inl IndexOutOfRange
        else if nOutputs = 0 then Inl DivideByZero
        else if length (outputs org) \<le> i mod nOutputs then Inl IndexOutOfRange
        else
          (case map_of (neurons org) (sensors org ! (i mod nInputs)) of
             None \<Rightarrow> Inl NilDereference
           | Some inp \<Rightarrow>
               (case map_of (neurons org) (outputs org ! (i mod nOutputs)) of
                  None \<Rightarrow> Inl NilDereference
                | Some out \<Rightarrow>
                    (let (y, s1) = newSynapse inp out s in Inr (addSynapse y s1 org, s1)))))"

fun match_loop ::
  "nat \<Rightarrow> nat \<Rightarrow> nat list \<Rightarrow> organism \<times> state \<Rightarrow> error + (organism \<times> state)" where
  "match_loop nInputs nOutputs [] os = Inr os"
| "match_loop nInputs nOutputs (i # is) os =
     (case match_step nInputs nOutputs i os of
        Inl e \<Rightarrow> Inl e
      | Inr os1 \<Rightarrow> match_loop nInputs nOutputs is os1)"

definition newOrganism ::
  "nat \<Rightarrow> int \<Rightarrow> int \<Rightarrow> state \<Rightarrow> error + (organism \<times> state)" where
  "newOrganism maxAlloc nInputs nOutputs s =
     (case newOrganism_empty maxAlloc nInputs nOutputs of
        Inl e \<Rightarrow> Inl e
      | Inr org \<Rightarrow>
          match_loop (nat nInputs) (nat nOutputs) [0 ..< nat (max nInputs nOutputs)]
            (add_new_neurons newOutputNeuron (nat nOutputs)
               (add_new_neurons newSensorNeuron (nat nInputs) (org, s))))"

section \<open>Test genomes\<close>

text \<open>
  \<open>createSimpleRecurrent\<close> of network_test.go.  Its \<open>_newOrganism(1, 1)\<close> makes slices
  of one element, 16 bytes at most, which is taken to succeed.
\<close>

definition createSimpleRecurrent :: "state \<Rightarrow> organism \<times> state" where
  "createSimpleRecurrent s =
     (let org = empty_organism;
          (sensor, s) = newSensorNeuron s;
          (hidden, s) = newHiddenNeuron s;
          (output, s) = newOutputNeuron s;
          org = addNeuron sensor s org;
          org = addNeuron hidden s org;
          org = addNeuron output s org;
          (y1, s) = newSynapse sensor hidden s;
          org = addSynapse y1 s org;
          (y2, s) = newSynapse hidden sensor s;
          org = addSynapse y2 s org;
          (y3, s) = newSynapse hidden output s;
          org = addSynapse y3 s org
      in (org, s))"

text \<open>
  Two sensors and a synapse from the first to the second, built like
  \<open>createSimpleRecurrent\<close>, from \<open>_newOrganism(2, 0)\<close>.
\<close>

definition sensorFeedsSensor :: "state \<Rightarrow> organism \<times> state" where
  "sensorFeedsSensor s =
     (let org = empty_organism;
          (a, s) = newSensorNeuron s;
          (b, s) = newSensorNeuron s;
          org = addNeuron a s org;
          org = addNeuron b s org;
          (y, s) = newSynapse a b s;
          org = addSynapse y s org
      in (org, s))"

text \<open>
  The genome and the state after \<open>newOrganism(1, 1)\<close> from the initial state, and
  after a second \<open>newOrganism(1, 1)\<close>.
\<close>

definition state_a :: state where
  "state_a =
     \<lparr>nheap = (\<lambda>_. zero_neuron)
        (0 := \<lparr>n_id = 1, n_value = 0, n_innovation = 1, n_kind = sensorNeuron, n_future = 0,
               n_sum = 0, n_visited = False, n_seen = False\<rparr>,
         Suc 0 := \<lparr>n_id = 2, n_value = 0, n_innovation = 2, n_kind = outputNeuron, n_future = 0,
               n_sum = 0, n_visited = False, n_seen = False\<rparr>),
      nnext = 2,
      sheap = (\<lambda>_. zero_synapse)
        (0 := \<lparr>s_id = 3, s_in = 1, s_out = 2, s_weight = 1, s_enabled = True,
               s_innovation = 3\<rparr>),
      snext = 1, idCount = 3, innovationCount = 3\<rparr>"

definition org_a :: organism where
  "org_a =
     \<lparr>sensors = [1], outputs = [2], neurons = [(1, 0), (2, 1)], synapses = [(3, 0)],
      connections = [(1, [3])], genes = [NeuronGene 0, NeuronGene 1, SynapseGene 0],
      generation = 0, fitness = 0\<rparr>"

definition state_ab :: state where
  "state_ab =
     \<lparr>nheap = (\<lambda>_. zero_neuron)
        (0 := \<lparr>n_id = 1, n_value = 0, n_innovation = 1, n_kind = sensorNeuron, n_future = 0,
               n_sum = 0, n_visited = False, n_seen = False\<rparr>,
         Suc 0 := \<lparr>n_id = 2, n_value = 0, n_innovation = 2, n_kind = outputNeuron, n_future = 0,
               n_sum = 0, n_visited = False, n_seen = False\<rparr>,
         2 := \<lparr>n_id = 4, n_value = 0, n_innovation = 4, n_kind = sensorNeuron, n_future = 0,
               n_sum = 0, n_visited = False, n_seen = False\<rparr>,
         Suc 2 := \<lparr>n_id = 5, n_value = 0, n_innovation = 5, n_kind = outputNeuron, n_future = 0,
               n_sum = 0, n_visited = False, n_seen = False\<rparr>),
      nnext = 4,
      sheap = (\<lambda>_. zero_synapse)
        (0 := \<lparr>s_id = 3, s_in = 1, s_out = 2, s_weight = 1, s_enabled = True,
               s_innovation = 3\<rparr>,
         1 := \<lparr>s_id = 6, s_in = 4, s_out = 5, s_weight = 1, s_enabled = True,
               s_innovation = 6\<rparr>),
      snext = 2, idCount = 6, innovationCount = 6\<rparr>"

definition org_b :: organism where
  "org_b =
     \<lparr>sensors = [4], outputs = [5], neurons = [(4, 2), (5, 3)], synapses = [(6, 1)],
      connections = [(4, [6])], genes = [NeuronGene 2, NeuronGene 3, SynapseGene 1],
      generation = 0, fitness = 0\<rparr>"

text \<open>\<open>testConfig\<close> of network_test.go, with its identity activation.\<close>

definition testConfig :: OrganismConfig where
  "testConfig =
     \<lparr>SynapseSplitMutProb = 0.01, SynapseActivityMutProb = 0.01,
      SynapseWeightMutProp = 0.01, SynapseWeightBound = 5, actFunc = (\<lambda>a. a)\<rparr>"

text \<open>The clone of the first genome, made in the second state.\<close>

definition org_c :: organism where
  "org_c =
     \<lparr>sensors = [1], outputs = [2], neurons = [(1, 4), (2, 5)], synapses = [(3, 2)],
      connections = [(1, [3])], genes = [NeuronGene 4, NeuronGene 5, SynapseGene 2],
      generation = 0, fitness = 0\<rparr>"

definition state_c :: state where
  "state_c =
     state_ab\<lparr>nheap := (nheap state_ab)(4 := nheap state_ab 0, 5 := nheap state_ab 1),
              nnext := 6,
              sheap := (sheap state_ab)(2 := sheap state_ab 0), snext := 3\<rparr>"

section \<open>Notions used in the statements\<close>

subsection \<open>The recurrent genome\<close>

text \<open>The running sums of a list of inputs, from the sum \<open>c\<close> so far.\<close>

fun running_sums :: "real \<Rightarrow> real list \<Rightarrow> real list" where
  "running_sums c [] = []"
| "running_sums c (x # xs) = (c + x) # running_sums (c + x) xs"

text \<open>
  The recurrent genome of the tests between two calls of \<open>process\<close>: the sensor holds
  \<open>c\<close> in \<open>future\<close>, the other two neurons hold 0, and the three synapses are enabled
  with weight 1.
\<close>

definition recurrent_inv :: "real \<Rightarrow> state \<Rightarrow> bool" where
  "recurrent_inv c s \<longleftrightarrow>
     n_id (nheap s 0) = 1 \<and> n_id (nheap s (Suc 0)) = 2 \<and> n_id (nheap s (Suc (Suc 0))) = 3 \<and>
     n_future (nheap s 0) = c \<and> n_future (nheap s (Suc 0)) = 0 \<and>
     n_future (nheap s (Suc (Suc 0))) = 0 \<and>
     s_out (sheap s 0) = 2 \<and> s_out (sheap s (Suc 0)) = 1 \<and> s_out (sheap s (Suc (Suc 0))) = 3 \<and>
     s_weight (sheap s 0) = 1 \<and> s_weight (sheap s (Suc 0)) = 1 \<and>
     s_weight (sheap s (Suc (Suc 0))) = 1 \<and>
     s_enabled (sheap s 0) \<and> s_enabled (sheap s (Suc 0)) \<and> s_enabled (sheap s (Suc (Suc 0)))"

subsection \<open>Allocation of the empty organism\<close>

text \<open>
  The three \<open>make\<close> calls of \<open>_newOrganism(n, m)\<close> succeed: the \<open>n\<close> and the \<open>m\<close> ids
  and the \<open>n * m\<close> genes, counted with the wrapped product, are within the limit.
\<close>

definition alloc_ok :: "nat \<Rightarrow> nat \<Rightarrow> nat \<Rightarrow> bool" where
  "alloc_ok maxAlloc n m \<longleftrightarrow>
     8 * n \<le> maxAlloc \<and> 8 * m \<le> maxAlloc \<and>
     0 \<le> int_mul (int n) (int m) \<and> 16 * int_mul (int n) (int m) \<le> int maxAlloc"

subsection \<open>Stores and genes\<close>

text \<open>
  State \<open>s'\<close> has every object of state \<open>s\<close>, unchanged, and possibly more; a gene is
  an allocated object; the contents of a gene; the gene that its copy becomes; adding a
  gene to an organism; inheriting a list of genes, one after the other.
\<close>

definition extends :: "state \<Rightarrow> state \<Rightarrow> bool" where
  "extends s s' \<longleftrightarrow>
     nnext s \<le> nnext s' \<and> snext s \<le> snext s' \<and>
     (\<forall>p < nnext s. nheap s' p = nheap s p) \<and> (\<forall>p < snext s. sheap s' p = sheap s p)"

definition gene_ok :: "state \<Rightarrow> gene \<Rightarrow> bool" where
  "gene_ok s g = (case g of NeuronGene p \<Rightarrow> p < nnext s | SynapseGene p \<Rightarrow> p < snext s)"

definition deref :: "state \<Rightarrow> gene \<Rightarrow> neuron + synapse" where
  "deref s g = (case g of NeuronGene p \<Rightarrow> Inl (nheap s p) | SynapseGene p \<Rightarrow> Inr (sheap s p))"

definition fresh_gene :: "state \<Rightarrow> gene \<Rightarrow> gene" where
  "fresh_gene s g = (case g of NeuronGene p \<Rightarrow> NeuronGene (nnext s) | SynapseGene p \<Rightarrow> SynapseGene (snext s))"

definition add_gene :: "gene \<Rightarrow> state \<Rightarrow> organism \<Rightarrow> organism" where
  "add_gene g s org = (case g of NeuronGene p \<Rightarrow> addNeuron p s org | SynapseGene p \<Rightarrow> addSynapse p s org)"

fun inherit_all :: "gene list \<Rightarrow> organism \<times> state \<Rightarrow> organism \<times> state" where
  "inherit_all [] os = os"
| "inherit_all (g # gs) os = inherit_all gs (inherit g os)"

subsection \<open>The merge of two gene lists\<close>

text \<open>The parent genes that the loop of \<open>mate\<close> inherits, as a merge of two lists.\<close>

fun merge_genes :: "(gene \<Rightarrow> 64 word) \<Rightarrow> bool \<Rightarrow> gene list \<Rightarrow> gene list \<Rightarrow> gene list" where
  "merge_genes iv fit [] ys = ys"
| "merge_genes iv fit (x # xs) [] = x # xs"
| "merge_genes iv fit (x # xs) (y # ys) =
     (if iv x = iv y then (if fit then x else y) # merge_genes iv fit xs ys
      else if iv x < iv y then x # merge_genes iv fit xs (y # ys)
      else y # merge_genes iv fit (x # xs) ys)"

subsection \<open>Genomes\<close>

text \<open>
  Every organism of the program is made by \<open>_newOrganism\<close> followed by calls of
  \<open>addNeuron\<close> and \<open>addSynapse\<close>, and nothing else writes its slices and maps or the
  \<open>id\<close>, \<open>kind\<close> and \<open>in\<close> of a gene.  So a genome is an organism whose genes are
  allocated objects and whose slices and maps are what adding its genes in order
  builds.
\<close>

definition replay :: "state \<Rightarrow> gene list \<Rightarrow> organism \<Rightarrow> organism" where
  "replay s gs org = foldl (\<lambda>org g. add_gene g s org) org gs"

definition wf_genome :: "organism \<Rightarrow> state \<Rightarrow> bool" where
  "wf_genome org s \<longleftrightarrow>
     list_all (gene_ok s) (genes org) \<and>
     org = (replay s (genes org) empty_organism)
             \<lparr>generation := generation org, fitness := fitness org\<rparr>"

text \<open>The kind of a gene, and the ids of the neurons of one kind among gene contents.\<close>

datatype geneKind = NeuronKind neuronKind | SynapseKind

definition gene_kind :: "state \<Rightarrow> gene \<Rightarrow> geneKind" where
  "gene_kind s g = (case deref s g of Inl n \<Rightarrow> NeuronKind (n_kind n) | Inr y \<Rightarrow> SynapseKind)"

definition ids_of_kind :: "neuronKind \<Rightarrow> (neuron + synapse) list \<Rightarrow> neuronID list" where
  "ids_of_kind k cs =
     concat (map (\<lambda>c. case c of Inl n \<Rightarrow> (if n_kind n = k then [n_id n] else []) | Inr y \<Rightarrow> []) cs)"

text \<open>
  State \<open>s'\<close> has the objects of state \<open>s\<close> with the same ids, kinds and source
  neurons: what adding a gene to an organism reads.
\<close>

definition same_ident :: "state \<Rightarrow> state \<Rightarrow> bool" where
  "same_ident s s' \<longleftrightarrow>
     (\<forall>p. n_id (nheap s' p) = n_id (nheap s p) \<and> n_kind (nheap s' p) = n_kind (nheap s p)) \<and>
     (\<forall>q. s_id (sheap s' q) = s_id (sheap s q) \<and> s_in (sheap s' q) = s_in (sheap s q)) \<and>
     nnext s' = nnext s \<and> snext s' = snext s"

subsection \<open>Corresponding genomes\<close>

text \<open>
  The neurons reachable from the maps of an organism, and its synapses: what
  \<open>process\<close> reads and writes.
\<close>

definition nfoot :: "organism \<Rightarrow> naddr set" where
  "nfoot org = snd ` set (neurons org)"

definition sfoot :: "organism \<Rightarrow> saddr set" where
  "sfoot org = snd ` set (synapses org)"

text \<open>
  Organism \<open>b\<close> is organism \<open>a\<close> with its neurons renamed by \<open>f\<close> and its synapses by \<open>h\<close>.
\<close>

definition orel :: "(naddr \<Rightarrow> naddr) \<Rightarrow> (saddr \<Rightarrow> saddr) \<Rightarrow> organism \<Rightarrow> organism \<Rightarrow> bool" where
  "orel f h a b \<longleftrightarrow>
     sensors b = sensors a \<and> outputs b = outputs a \<and> connections b = connections a \<and>
     neurons b = map (\<lambda>(k, p). (k, f p)) (neurons a) \<and>
     synapses b = map (\<lambda>(k, q). (k, h q)) (synapses a)"

text \<open>
  The objects of \<open>a\<close> in state \<open>sa\<close> have the contents of their images in state \<open>sb\<close>.
\<close>

definition srel ::
  "(naddr \<Rightarrow> naddr) \<Rightarrow> (saddr \<Rightarrow> saddr) \<Rightarrow> organism \<Rightarrow> state \<Rightarrow> state \<Rightarrow> bool" where
  "srel f h a sa sb \<longleftrightarrow>
     inj_on f (nfoot a) \<and>
     (\<forall>p \<in> nfoot a. nheap sb (f p) = nheap sa p) \<and>
     (\<forall>q \<in> sfoot a. sheap sb (h q) = sheap sa q)"

text \<open>Every neuron of the queue is a neuron of the organism.\<close>

definition queue_ok :: "organism \<Rightarrow> naddr option list \<Rightarrow> bool" where
  "queue_ok a q \<longleftrightarrow> (\<forall>p. Some p \<in> set q \<longrightarrow> p \<in> nfoot a)"

text \<open>Corresponding queues in corresponding states.\<close>

definition qrel ::
  "(naddr \<Rightarrow> naddr) \<Rightarrow> (saddr \<Rightarrow> saddr) \<Rightarrow> organism
     \<Rightarrow> naddr option list \<times> state \<Rightarrow> naddr option list \<times> state \<Rightarrow> bool" where
  "qrel f h a x y \<longleftrightarrow>
     fst y = map (map_option f) (fst x) \<and> queue_ok a (fst x) \<and> srel f h a (snd x) (snd y)"

text \<open>The outputs of a sequence of calls, or the error that stops it.\<close>

definition outputs_of :: "error + ('a \<times> state) \<Rightarrow> error + 'a" where
  "outputs_of r = map_sum id fst r"

text \<open>
  In a genome every map entry is keyed by the id of its object, and keys are not
  repeated.
\<close>

definition keyed :: "organism \<Rightarrow> state \<Rightarrow> bool" where
  "keyed org s \<longleftrightarrow>
     distinct (map fst (neurons org)) \<and>
     (\<forall>(k, p) \<in> set (neurons org). n_id (nheap s p) = k) \<and>
     distinct (map fst (synapses org)) \<and>
     (\<forall>(k, q) \<in> set (synapses org). s_id (sheap s q) = k)"

text \<open>
  Organism \<open>c\<close> in state \<open>s0\<close> is a copy of organism \<open>org\<close> of state \<open>s\<close>: every object
  of \<open>org\<close> has a copy allocated after \<open>s\<close>.
\<close>

definition clone_rel ::
  "state \<Rightarrow> (naddr \<Rightarrow> naddr) \<Rightarrow> (saddr \<Rightarrow> saddr) \<Rightarrow> organism \<Rightarrow> organism \<Rightarrow> state \<Rightarrow> bool" where
  "clone_rel s f h org c s0 \<longleftrightarrow>
     extends s s0 \<and> orel f h org c \<and> keyed org s \<and>
     (\<forall>p \<in> nfoot org.
        p < nnext s \<and> nnext s \<le> f p \<and> f p < nnext s0 \<and> nheap s0 (f p) = nheap s p) \<and>
     (\<forall>q \<in> sfoot org.
        q < snext s \<and> snext s \<le> h q \<and> h q < snext s0 \<and> sheap s0 (h q) = sheap s q)"

text \<open>State \<open>s'\<close> differs from \<open>s\<close> at most in the neurons of organism \<open>a\<close>.\<close>

definition frame_n :: "organism \<Rightarrow> state \<Rightarrow> state \<Rightarrow> bool" where
  "frame_n a s s' \<longleftrightarrow>
     (\<forall>p. p \<notin> nfoot a \<longrightarrow> nheap s' p = nheap s p) \<and> sheap s' = sheap s \<and>
     nnext s' = nnext s \<and> snext s' = snext s \<and> idCount s' = idCount s \<and>
     innovationCount s' = innovationCount s"

subsection \<open>Map entries and fresh objects\<close>

text \<open>The ids of the sensor and output lists are keys of the neuron map.\<close>

definition ids_in_keys :: "organism \<Rightarrow> bool" where
  "ids_in_keys org \<longleftrightarrow> set (sensors org) \<union> set (outputs org) \<subseteq> fst ` set (neurons org)"

text \<open>
  The map entries that the neuron genes and the synapse genes of a gene list add, when
  no id is repeated.
\<close>

definition neuron_entries :: "state \<Rightarrow> gene list \<Rightarrow> (neuronID \<times> naddr) list" where
  "neuron_entries s gs =
     concat (map (\<lambda>g. case g of NeuronGene p \<Rightarrow> [(n_id (nheap s p), p)] | SynapseGene q \<Rightarrow> []) gs)"

definition synapse_entries :: "state \<Rightarrow> gene list \<Rightarrow> (synapseID \<times> saddr) list" where
  "synapse_entries s gs =
     concat (map (\<lambda>g. case g of NeuronGene p \<Rightarrow> [] | SynapseGene q \<Rightarrow> [(s_id (sheap s q), q)]) gs)"

text \<open>The neuron and the synapse that \<open>_newNeuron\<close> and \<open>newSynapse\<close> allocate.\<close>

definition fresh_neuron :: "neuronKind \<Rightarrow> 64 word \<Rightarrow> 64 word \<Rightarrow> neuron" where
  "fresh_neuron k i v =
     \<lparr>n_id = i, n_value = 0, n_innovation = v, n_kind = k, n_future = 0, n_sum = 0,
      n_visited = False, n_seen = False\<rparr>"

definition fresh_synapse :: "64 word \<Rightarrow> neuronID \<Rightarrow> neuronID \<Rightarrow> 64 word \<Rightarrow> synapse" where
  "fresh_synapse i src tgt v =
     \<lparr>s_id = i, s_in = src, s_out = tgt, s_weight = 1, s_enabled = True, s_innovation = v\<rparr>"

text \<open>Every id of the sensor and output lists resolves to a neuron with that id.\<close>

definition resolves :: "organism \<Rightarrow> state \<Rightarrow> bool" where
  "resolves org s \<longleftrightarrow>
     (\<forall>k \<in> set (sensors org) \<union> set (outputs org).
        \<exists>p. map_of (neurons org) k = Some p \<and> n_id (nheap s p) = k)"

section \<open>When \<open>_newOrganism\<close> returns\<close>

lemma int_mul_eq: "int_mul x y = (x * y + 2 ^ 63) mod 2 ^ 64 - 2 ^ 63"
  unfolding int_mul_def int_word_sint by simp

lemma int_mul_small: "n * m < 2 ^ 63 \<Longrightarrow> int_mul (int n) (int m) = int (n * m)"
proof -
  assume "n * m < 2 ^ 63"
  then have "int (n * m) < 2 ^ 63" by (metis of_nat_less_iff of_nat_numeral of_nat_power)
  then have "- (2 ^ 63) \<le> int n * int m" "int n * int m < 2 ^ 63"
    by (simp_all flip: of_nat_mult)
  then have "signed_take_bit 63 (int n * int m) = int n * int m"
    by (rule signed_take_bit_int_eq_self)
  then show ?thesis unfolding int_mul_def sint_sbintrunc' by simp
qed

lemma alloc_ok_small:
  "n * m < 2 ^ 63 \<Longrightarrow>
     alloc_ok maxAlloc n m \<longleftrightarrow> 8 * n \<le> maxAlloc \<and> 8 * m \<le> maxAlloc \<and> 16 * (n * m) \<le> maxAlloc"
  by (simp add: alloc_ok_def int_mul_small del: of_nat_mult) linarith

lemma newOrganism_empty_eq:
  "newOrganism_empty maxAlloc (int n) (int m)
     = (if alloc_ok maxAlloc n m then Inr empty_organism else Inl MakeSliceLen)"
  by (auto simp: newOrganism_empty_def makeslice_ok_def alloc_ok_def)

lemma mate_unfold:
  "mate maxAlloc a b s =
     (if length (sensors a) \<noteq> length (sensors b) \<or> length (outputs a) \<noteq> length (outputs b)
      then Inl FatalMateArity
      else if \<not> alloc_ok maxAlloc (length (sensors a)) (length (outputs a))
      then Inl MakeSliceLen
      else mate_loop a b (0, 0, empty_organism\<lparr>generation := generation a + 1\<rparr>, s))"
  by (simp add: mate_def newOrganism_empty_eq)

lemma clone_unfold:
  "clone maxAlloc org s =
     (if alloc_ok maxAlloc (length (sensors org)) (length (outputs org))
      then Inr (clone_loop (genes org) (empty_organism, s)) else Inl MakeSliceLen)"
  by (simp add: clone_def newOrganism_empty_eq)

lemma newOrganism_unfold:
  "newOrganism maxAlloc (int n) (int m) s =
     (if alloc_ok maxAlloc n m
      then match_loop n m [0 ..< max n m]
             (add_new_neurons newOutputNeuron m
                (add_new_neurons newSensorNeuron n (empty_organism, s)))
      else Inl MakeSliceLen)"
  by (simp add: newOrganism_def newOrganism_empty_eq flip: of_nat_max)

lemma alloc_ok_1_1: "alloc_ok 1024 (Suc 0) (Suc 0)"
  using alloc_ok_small [of 1 1 1024] by simp

section \<open>Lookups of absent ids\<close>

text \<open>
  C3, as the code has it: for every genome and every id absent from the corresponding
  map, \<open>getNeuron\<close> and \<open>getSynapse\<close> return the nil pointer, an ordinary value and no
  error; \<open>synapseEndpoints\<close> dereferences that nil pointer and panics.
\<close>

theorem lookup_absent_nil:
  "(map_of (neurons org) k = None \<longrightarrow> getNeuron org k = None) \<and>
   (map_of (synapses org) k = None \<longrightarrow>
      getSynapse org k = None \<and> synapseEndpoints org s k = Inl NilDereference)"
  by (simp add: getNeuron_def getSynapse_def synapseEndpoints_def)

theorem lookup_absent_nil_witness:
  "map_of (neurons empty_organism) 7 = None \<and>
   getNeuron empty_organism 7 = None \<and>
   map_of (synapses empty_organism) 7 = None \<and>
   getSynapse empty_organism 7 = None \<and>
   synapseEndpoints empty_organism init_state 7 = Inl NilDereference"
  using lookup_absent_nil [of "empty_organism" 7 init_state]
  by (simp add: empty_organism_def)

text \<open>
  C3 as stated fails: in the empty genome, where id 3 is absent, \<open>getNeuron\<close> and
  \<open>getSynapse\<close> return nil and \<open>synapseEndpoints\<close> aborts; none returns an error value.
\<close>

theorem lookup_absent_counterexample:
  "map_of (neurons empty_organism) 3 = None \<and>
   map_of (synapses empty_organism) 3 = None \<and>
   getNeuron empty_organism 3 = None \<and>
   getSynapse empty_organism 3 = None \<and>
   synapseEndpoints empty_organism init_state 3 = Inl NilDereference"
  by (simp add: empty_organism_def getNeuron_def getSynapse_def synapseEndpoints_def)

section \<open>Weight resampling\<close>

text \<open>
  C4, as the code has it: with a bound above 0 and a random value in [0,1), the new
  weight \<open>w\<close> of the synapse satisfies \<open>-bound \<le> w < bound\<close>; the lower end is reached.
\<close>

theorem mutateWeight_range:
  assumes "0 < SynapseWeightBound cfg" and "0 \<le> r" and "r < 1"
  shows "- SynapseWeightBound cfg \<le> s_weight (sheap (synapse_mutateWeight cfg r p s) p) \<and>
         s_weight (sheap (synapse_mutateWeight cfg r p s) p) < SynapseWeightBound cfg"
proof -
  let ?b = "SynapseWeightBound cfg"
  have w: "s_weight (sheap (synapse_mutateWeight cfg r p s) p) = (2 * r - 1) * ?b"
    by (simp add: synapse_mutateWeight_def mutateWeight_value_def algebra_simps)
  have lo: "- ?b \<le> (2 * r - 1) * ?b"
  proof -
    have "0 \<le> (2 * r) * ?b" using assms by simp
    then show ?thesis by (simp add: algebra_simps)
  qed
  have hi: "(2 * r - 1) * ?b < ?b"
  proof -
    have "(2 * r - 1) * ?b < 1 * ?b"
      using assms by (intro mult_strict_right_mono) simp_all
    then show ?thesis by simp
  qed
  from w lo hi show ?thesis by simp
qed

theorem mutateWeight_range_witness:
  "0 < SynapseWeightBound testConfig \<and> (0::real) \<le> 1 / 4 \<and> (1 / 4 :: real) < 1 \<and>
   - SynapseWeightBound testConfig
     \<le> s_weight (sheap (synapse_mutateWeight testConfig (1 / 4) 0 init_state) 0) \<and>
   s_weight (sheap (synapse_mutateWeight testConfig (1 / 4) 0 init_state) 0)
     < SynapseWeightBound testConfig"
  using mutateWeight_range [of testConfig "1 / 4" 0 init_state]
  by (simp add: testConfig_def)

text \<open>
  C4 as stated fails: when the random source returns 0, the new weight is \<open>-bound\<close>,
  which is not strictly inside the interval.
\<close>

theorem mutateWeight_open_counterexample:
  "0 < SynapseWeightBound testConfig \<and> (0::real) \<le> 0 \<and> (0::real) < 1 \<and>
   \<not> (- SynapseWeightBound testConfig
        < s_weight (sheap (synapse_mutateWeight testConfig 0 0 init_state) 0))"
  by (simp add: testConfig_def synapse_mutateWeight_def mutateWeight_value_def)

section \<open>Evaluation of the test genomes\<close>

lemmas build_defs =
  newSensorNeuron_def newHiddenNeuron_def newOutputNeuron_def newNeuron_def nextID_def
  nextInnovation_def alloc_neuron_def alloc_synapse_def newSynapse_def addNeuron_def
  addSynapse_def empty_organism_def init_state_def conns_def Let_def

lemmas run_defs =
  process_def propagate_def getSynapse_def upd_neuron_def clear_neuron_def testConfig_def
  propagate_loop.simps

lemmas org_defs = match_step_def neuron_clone_def synapse_clone_def

lemma newOrganism_1_1: "newOrganism 1024 1 1 init_state = Inr (org_a, state_a)"
  using newOrganism_unfold [of 1024 1 1 init_state]
  by (simp add: alloc_ok_1_1 org_defs build_defs org_a_def state_a_def)

lemma newOrganism_1_1_again: "newOrganism 1024 1 1 state_a = Inr (org_b, state_ab)"
  using newOrganism_unfold [of 1024 1 1 state_a]
  by (simp add: alloc_ok_1_1 org_defs build_defs org_b_def state_a_def state_ab_def)

text \<open>
  One call of \<open>process\<close> on the recurrent genome adds the input to the sum so far and
  returns it.
\<close>

lemma recurrent_init: "recurrent_inv 0 (snd (createSimpleRecurrent init_state))"
  by (simp add: recurrent_inv_def createSimpleRecurrent_def build_defs)

lemma recurrent_step:
  assumes "recurrent_inv c s"
  shows "\<exists>s'. process testConfig (fst (createSimpleRecurrent init_state)) [x] s = Inr ([c + x], s')
           \<and> recurrent_inv (c + x) s'"
  using assms by (simp add: recurrent_inv_def createSimpleRecurrent_def build_defs run_defs)

lemma recurrent_run:
  assumes "org = fst (createSimpleRecurrent init_state)"
  shows "recurrent_inv c s \<Longrightarrow>
    map_sum id fst (process_seq testConfig org (map (\<lambda>x. [x]) xs) s)
      = Inr (map (\<lambda>x. [x]) (running_sums c xs))"
proof (induction xs arbitrary: c s)
  case Nil
  show ?case by simp
next
  case (Cons x xs)
  from recurrent_step [OF Cons.prems, of x] assms obtain s' where
    p: "process testConfig org [x] s = Inr ([c + x], s')" and i: "recurrent_inv (c + x) s'"
    by auto
  from Cons.IH [OF i] show ?case using p by (auto split: sum.splits)
qed

text \<open>
  C2: on the recurrent genome of the tests (sensor to hidden, hidden back to sensor,
  hidden to output; weights 1, all enabled, identity activation, accumulators zero),
  every sequence of inputs gives as outputs its running sums, one call after the other;
  the inputs [1], [0], [0], [1] give the outputs [1], [1], [1], [2].
\<close>

theorem recurrent_delay:
  "(case createSimpleRecurrent init_state of
      (org, s) \<Rightarrow> map_sum id fst (process_seq testConfig org (map (\<lambda>x. [x]) xs) s))
     = Inr (map (\<lambda>x. [x]) (running_sums 0 xs)) \<and>
   (case createSimpleRecurrent init_state of
      (org, s) \<Rightarrow> map_sum id fst (process_seq testConfig org [[1], [0], [0], [1]] s))
     = Inr [[1], [1], [1], [2]]"
proof -
  have r: "map_sum id fst (process_seq testConfig (fst (createSimpleRecurrent init_state))
              (map (\<lambda>x. [x]) ys) (snd (createSimpleRecurrent init_state)))
            = Inr (map (\<lambda>x. [x]) (running_sums 0 ys))" for ys
    using refl recurrent_init by (rule recurrent_run)
  show ?thesis using r [of xs] r [of "[1, 0, 0, 1]"] by (simp add: case_prod_beta)
qed

text \<open>
  C1 fails on the code: the sensors are pushed without being marked \<open>seen\<close>, so a
  synapse from the first sensor to the second pushes the second sensor again, and its
  second pop finds it visited.  Both endpoints of the synapse are in the neuron map.
\<close>

theorem propagate_visited_fatal:
  "(case sensorFeedsSensor init_state of
      (org, s) \<Rightarrow>
        (synapseEndpoints org s 3, propagate testConfig org s,
         map_sum id fst (process testConfig org [1, 1] s)))
   = (Inr (Some 0, Some 1), Inl FatalVisitedNeuron, Inl FatalVisitedNeuron)"
  by (simp add: sensorFeedsSensor_def synapseEndpoints_def build_defs run_defs)

section \<open>Allocation only extends the stores\<close>

lemma extends_refl [simp]: "extends s s"
  by (simp add: extends_def)

lemma extends_trans: "extends s s' \<Longrightarrow> extends s' s'' \<Longrightarrow> extends s s''"
  by (auto simp: extends_def)

lemma gene_ok_extends: "extends s s' \<Longrightarrow> gene_ok s g \<Longrightarrow> gene_ok s' g"
  by (auto simp: extends_def gene_ok_def split: gene.splits)

lemma deref_extends: "extends s s' \<Longrightarrow> gene_ok s g \<Longrightarrow> deref s' g = deref s g"
  by (auto simp: extends_def gene_ok_def deref_def split: gene.splits)

lemma getInnovation_deref:
  "getInnovation s g = (case deref s g of Inl n \<Rightarrow> n_innovation n | Inr y \<Rightarrow> s_innovation y)"
  by (simp add: getInnovation_def deref_def split: gene.splits)

lemma getInnovation_extends:
  "extends s s' \<Longrightarrow> gene_ok s g \<Longrightarrow> getInnovation s' g = getInnovation s g"
  by (simp add: getInnovation_deref deref_extends)

lemma genes_addNeuron [simp]: "genes (addNeuron p s org) = genes org @ [NeuronGene p]"
  by (simp add: addNeuron_def Let_def split: neuronKind.splits)

lemma genes_addSynapse [simp]: "genes (addSynapse p s org) = genes org @ [SynapseGene p]"
  by (simp add: addSynapse_def Let_def)

lemma generation_addNeuron [simp]: "generation (addNeuron p s org) = generation org"
  by (simp add: addNeuron_def Let_def split: neuronKind.splits)

lemma generation_addSynapse [simp]: "generation (addSynapse p s org) = generation org"
  by (simp add: addSynapse_def Let_def)

lemma genes_add_gene [simp]: "genes (add_gene g s org) = genes org @ [g]"
  by (simp add: add_gene_def split: gene.splits)

lemma generation_add_gene [simp]: "generation (add_gene g s org) = generation org"
  by (simp add: add_gene_def split: gene.splits)

lemma inherit_add_gene:
  "inherit g (off, s) = (add_gene (fresh_gene s g) (snd (inherit g (off, s))) off, snd (inherit g (off, s)))"
  by (simp add: inherit_def add_gene_def fresh_gene_def alloc_neuron_def alloc_synapse_def
      split: gene.splits)

lemma inherit_extends: "extends s (snd (inherit g (off, s)))"
  by (simp add: inherit_def extends_def alloc_neuron_def alloc_synapse_def split: gene.splits)

lemma inherit_fresh_ok: "gene_ok (snd (inherit g (off, s))) (fresh_gene s g)"
  by (simp add: inherit_def gene_ok_def fresh_gene_def alloc_neuron_def alloc_synapse_def
      split: gene.splits)

lemma inherit_fresh_new: "\<not> gene_ok s (fresh_gene s g)"
  by (simp add: gene_ok_def fresh_gene_def split: gene.splits)

lemma inherit_deref: "deref (snd (inherit g (off, s))) (fresh_gene s g) = deref s g"
  by (simp add: inherit_def deref_def fresh_gene_def alloc_neuron_def alloc_synapse_def
      split: gene.splits)

lemma inherit_counters:
  "idCount (snd (inherit g (off, s))) = idCount s \<and>
   innovationCount (snd (inherit g (off, s))) = innovationCount s"
  by (simp add: inherit_def alloc_neuron_def alloc_synapse_def split: gene.splits)

lemma inherit_all_append:
  "inherit_all (gs @ hs) os = inherit_all hs (inherit_all gs os)"
  by (induction gs arbitrary: os) simp_all

lemma inherit_all_extends: "extends s (snd (inherit_all gs (off, s)))"
proof (induction gs arbitrary: off s)
  case Nil
  show ?case by simp
next
  case (Cons g gs)
  obtain off1 s1 where st: "inherit g (off, s) = (off1, s1)" by (cases "inherit g (off, s)")
  have "extends s s1" using inherit_extends [of s g off] st by simp
  moreover have "extends s1 (snd (inherit_all gs (off1, s1)))" by (rule Cons.IH)
  ultimately show ?case using st by (simp add: extends_trans)
qed

lemma inherit_all_generation: "generation (fst (inherit_all gs (off, s))) = generation off"
proof (induction gs arbitrary: off s)
  case Nil
  show ?case by simp
next
  case (Cons g gs)
  obtain off1 s1 where st: "inherit g (off, s) = (off1, s1)" by (cases "inherit g (off, s)")
  have "generation off1 = generation off"
    using inherit_add_gene [of g off s] st by (metis fst_conv generation_add_gene)
  then show ?case using Cons.IH [of off1 s1] st by simp
qed

text \<open>The genes of the offspring are copies of the inherited genes, in order.\<close>

lemma inherit_all_deref:
  assumes "\<forall>g \<in> set gs. gene_ok s g" and "\<forall>g \<in> set (genes off). gene_ok s g"
  shows "map (deref (snd (inherit_all gs (off, s)))) (genes (fst (inherit_all gs (off, s))))
           = map (deref s) (genes off) @ map (deref s) gs \<and>
         (\<forall>g \<in> set (genes (fst (inherit_all gs (off, s)))).
             gene_ok (snd (inherit_all gs (off, s))) g)"
  using assms
proof (induction gs arbitrary: off s)
  case Nil
  then show ?case by simp
next
  case (Cons g gs)
  obtain off1 s1 where st: "inherit g (off, s) = (off1, s1)" by (cases "inherit g (off, s)")
  have ext: "extends s s1" using inherit_extends [of s g off] st by simp
  have off1: "off1 = add_gene (fresh_gene s g) s1 off"
    using inherit_add_gene [of g off s] st by simp
  have g1: "genes off1 = genes off @ [fresh_gene s g]" by (simp add: off1)
  have okf: "gene_ok s1 (fresh_gene s g)" using inherit_fresh_ok [of g off s] st by simp
  have df: "deref s1 (fresh_gene s g) = deref s g" using inherit_deref [of g off s] st by simp
  have ok1: "\<forall>h \<in> set gs. gene_ok s1 h"
    using Cons.prems(1) ext by (auto intro: gene_ok_extends)
  have ok2: "\<forall>h \<in> set (genes off1). gene_ok s1 h"
    using Cons.prems(2) ext okf g1 by (auto intro: gene_ok_extends)
  have d1: "map (deref s1) (genes off1) = map (deref s) (genes off) @ [deref s g]"
    using Cons.prems(2) ext df g1 by (simp add: deref_extends)
  have d2: "map (deref s1) gs = map (deref s) gs"
    using Cons.prems(1) ext by (simp add: deref_extends)
  from Cons.IH [OF ok1 ok2] d1 d2 st show ?case by simp
qed

lemma merge_genes_Nil2 [simp]: "merge_genes iv fit xs [] = xs"
  by (cases xs) simp_all

lemma merge_genes_cong:
  "\<forall>g \<in> set xs \<union> set ys. iv g = iv' g \<Longrightarrow>
     merge_genes iv fit xs ys = merge_genes iv' fit xs ys"
  by (induction iv fit xs ys rule: merge_genes.induct) auto

declare mate_loop.simps [simp del]

lemma mate_loop_merge:
  assumes "\<forall>g \<in> set (genes a). gene_ok s g" and "\<forall>g \<in> set (genes b). gene_ok s g"
  shows "mate_loop a b (i, j, off, s) =
           Inr (inherit_all
                  (merge_genes (getInnovation s) (fitness a > fitness b)
                     (drop i (genes a)) (drop j (genes b))) (off, s))"
  using assms
proof (induction a b "(i, j, off, s)" arbitrary: i j off s rule: mate_loop.induct)
  case (1 a b i j off s)
  let ?iv = "getInnovation s"
  let ?fit = "fitness a > fitness b"
  have step: "\<And>i' j' g. mate_step a b (i, j, off, s) = Inr (i', j', inherit g (off, s)) \<Longrightarrow>
      i < length (genes a) \<or> j < length (genes b) \<Longrightarrow>
      mate_loop a b (i, j, off, s) =
        Inr (inherit_all (g # merge_genes ?iv ?fit (drop i' (genes a)) (drop j' (genes b))) (off, s))"
  proof -
    fix i' j' g
    assume ms: "mate_step a b (i, j, off, s) = Inr (i', j', inherit g (off, s))"
      and lc: "i < length (genes a) \<or> j < length (genes b)"
    obtain off1 s1 where st: "inherit g (off, s) = (off1, s1)" by (cases "inherit g (off, s)")
    have ext: "extends s s1" using inherit_extends [of s g off] st by simp
    have oka: "\<forall>g \<in> set (genes a). gene_ok s1 g"
      using "1.prems"(1) ext by (auto intro: gene_ok_extends)
    have okb: "\<forall>g \<in> set (genes b). gene_ok s1 g"
      using "1.prems"(2) ext by (auto intro: gene_ok_extends)
    have ms1: "mate_step a b (i, j, off, s) = Inr (i', j', off1, s1)"
      using ms st by simp
    have ih: "mate_loop a b (i', j', off1, s1) =
        Inr (inherit_all (merge_genes (getInnovation s1) ?fit
               (drop i' (genes a)) (drop j' (genes b))) (off1, s1))"
      by (rule "1.hyps" [OF lc ms1 oka okb])
    have "merge_genes (getInnovation s1) ?fit (drop i' (genes a)) (drop j' (genes b))
        = merge_genes ?iv ?fit (drop i' (genes a)) (drop j' (genes b))"
    proof (rule merge_genes_cong, rule ballI)
      fix h assume "h \<in> set (drop i' (genes a)) \<union> set (drop j' (genes b))"
      then have "h \<in> set (genes a) \<or> h \<in> set (genes b)"
        by (auto dest: in_set_dropD)
      then have "gene_ok s h" using "1.prems" by auto
      with ext show "getInnovation s1 h = getInnovation s h"
        by (rule getInnovation_extends)
    qed
    with ih lc ms st show "mate_loop a b (i, j, off, s) =
        Inr (inherit_all (g # merge_genes ?iv ?fit (drop i' (genes a)) (drop j' (genes b))) (off, s))"
      by (simp add: mate_loop.simps [of a b i j off s])
  qed
  show ?case
  proof (cases "i < length (genes a)")
    case ia: True
    then have da: "drop i (genes a) = genes a ! i # drop (Suc i) (genes a)"
      by (simp add: Cons_nth_drop_Suc)
    show ?thesis
    proof (cases "j < length (genes b)")
      case jb: True
      then have db: "drop j (genes b) = genes b ! j # drop (Suc j) (genes b)"
        by (simp add: Cons_nth_drop_Suc)
      consider (eq) "?iv (genes a ! i) = ?iv (genes b ! j)"
        | (lt) "?iv (genes a ! i) < ?iv (genes b ! j)"
        | (gt) "?iv (genes b ! j) < ?iv (genes a ! i)"
        by (metis linorder_neqE)
      then show ?thesis
      proof cases
        case eq
        have "mate_step a b (i, j, off, s) =
            Inr (Suc i, Suc j, inherit (if ?fit then genes a ! i else genes b ! j) (off, s))"
          using ia jb eq by (simp add: mate_step_def Let_def)
        from step [OF this] ia have "mate_loop a b (i, j, off, s) =
            Inr (inherit_all ((if ?fit then genes a ! i else genes b ! j) #
              merge_genes ?iv ?fit (drop (Suc i) (genes a)) (drop (Suc j) (genes b))) (off, s))"
          by simp
        then show ?thesis using eq by (simp add: da db)
      next
        case lt
        have "mate_step a b (i, j, off, s) = Inr (Suc i, j, inherit (genes a ! i) (off, s))"
          using ia jb lt by (simp add: mate_step_def Let_def)
        from step [OF this] ia have "mate_loop a b (i, j, off, s) =
            Inr (inherit_all (genes a ! i #
              merge_genes ?iv ?fit (drop (Suc i) (genes a)) (drop j (genes b))) (off, s))"
          by simp
        moreover have "?iv (genes a ! i) \<noteq> ?iv (genes b ! j)" using lt by simp
        ultimately show ?thesis using lt by (simp add: da db)
      next
        case gt
        have "mate_step a b (i, j, off, s) = Inr (i, Suc j, inherit (genes b ! j) (off, s))"
          using ia jb gt by (auto simp: mate_step_def Let_def)
        from step [OF this] ia have "mate_loop a b (i, j, off, s) =
            Inr (inherit_all (genes b ! j #
              merge_genes ?iv ?fit (drop i (genes a)) (drop (Suc j) (genes b))) (off, s))"
          by simp
        moreover have "?iv (genes a ! i) \<noteq> ?iv (genes b ! j)" using gt by simp
        moreover have "\<not> ?iv (genes a ! i) < ?iv (genes b ! j)" using gt by simp
        ultimately show ?thesis by (simp add: da db)
      qed
    next
      case jb: False
      have "mate_step a b (i, j, off, s) = Inr (Suc i, j, inherit (genes a ! i) (off, s))"
        using ia jb by (simp add: mate_step_def Let_def)
      from step [OF this] ia have "mate_loop a b (i, j, off, s) =
          Inr (inherit_all (genes a ! i #
            merge_genes ?iv ?fit (drop (Suc i) (genes a)) (drop j (genes b))) (off, s))"
        by simp
      then show ?thesis using jb by (simp add: da)
    qed
  next
    case ia: False
    show ?thesis
    proof (cases "j < length (genes b)")
      case jb: True
      then have db: "drop j (genes b) = genes b ! j # drop (Suc j) (genes b)"
        by (simp add: Cons_nth_drop_Suc)
      have "mate_step a b (i, j, off, s) = Inr (i, Suc j, inherit (genes b ! j) (off, s))"
        using ia jb by (simp add: mate_step_def Let_def)
      from step [OF this] jb have "mate_loop a b (i, j, off, s) =
          Inr (inherit_all (genes b ! j #
            merge_genes ?iv ?fit (drop i (genes a)) (drop (Suc j) (genes b))) (off, s))"
        by simp
      then show ?thesis using ia by (simp add: db)
    next
      case jb: False
      with ia show ?thesis by (simp add: mate_loop.simps [of a b i j off s])
    qed
  qed
qed

lemma merge_genes_image:
  "iv ` set (merge_genes iv fit xs ys) = iv ` set xs \<union> iv ` set ys"
  by (induction iv fit xs ys rule: merge_genes.induct) auto

lemma merge_genes_subset: "set (merge_genes iv fit xs ys) \<subseteq> set xs \<union> set ys"
  by (induction iv fit xs ys rule: merge_genes.induct) auto

lemma merge_genes_sorted:
  "sorted_wrt (<) (map iv xs) \<Longrightarrow> sorted_wrt (<) (map iv ys) \<Longrightarrow>
     sorted_wrt (<) (map iv (merge_genes iv fit xs ys))"
proof (induction iv fit xs ys rule: merge_genes.induct)
  case (1 iv fit ys)
  then show ?case by simp
next
  case (2 iv fit x xs)
  then show ?case by simp
next
  case (3 iv fit x xs y ys)
  have sx: "sorted_wrt (<) (map iv xs)" and sy: "sorted_wrt (<) (map iv ys)"
    and bx: "\<forall>v \<in> iv ` set xs. iv x < v" and by': "\<forall>v \<in> iv ` set ys. iv y < v"
    using "3.prems" by auto
  show ?case
  proof (cases "iv x = iv y")
    case True
    have "sorted_wrt (<) (map iv (merge_genes iv fit xs ys))"
      using "3.IH"(1) True sx sy by simp
    moreover have "\<forall>v \<in> iv ` set (merge_genes iv fit xs ys). iv x < v"
      using bx by' True by (auto simp: merge_genes_image)
    ultimately show ?thesis using True by auto
  next
    case ne: False
    show ?thesis
    proof (cases "iv x < iv y")
      case True
      have "sorted_wrt (<) (map iv (merge_genes iv fit xs (y # ys)))"
        using "3.IH"(2) ne True sx "3.prems"(2) by simp
      moreover have "\<forall>v \<in> iv ` set (merge_genes iv fit xs (y # ys)). iv x < v"
        using bx by' True by (auto simp: merge_genes_image)
      ultimately show ?thesis using ne True by auto
    next
      case False
      then have lt: "iv y < iv x" using ne by simp
      have "sorted_wrt (<) (map iv (merge_genes iv fit (x # xs) ys))"
        using "3.IH"(3) ne False sy "3.prems"(1) by simp
      moreover have "\<forall>v \<in> iv ` set (merge_genes iv fit (x # xs) ys). iv y < v"
        using bx by' lt by (auto simp: merge_genes_image)
      ultimately show ?thesis using ne False by auto
    qed
  qed
qed

lemma merge_genes_disjoint_mset:
  "iv ` set xs \<inter> iv ` set ys = {} \<Longrightarrow> mset (merge_genes iv fit xs ys) = mset xs + mset ys"
  by (induction iv fit xs ys rule: merge_genes.induct) auto

lemma mate_eq:
  assumes "\<forall>g \<in> set (genes a). gene_ok s g" and "\<forall>g \<in> set (genes b). gene_ok s g"
    and "length (sensors a) = length (sensors b)" and "length (outputs a) = length (outputs b)"
    and "alloc_ok maxAlloc (length (sensors a)) (length (outputs a))"
  shows "mate maxAlloc a b s =
           Inr (inherit_all
                  (merge_genes (getInnovation s) (fitness a > fitness b) (genes a) (genes b))
                  (empty_organism
                     \<lparr>generation := generation a + 1\<rparr>, s))"
  using mate_loop_merge [OF assms(1,2), of 0 0] assms(3,4,5) by (simp add: mate_unfold)

lemma mate_returns:
  assumes "\<forall>g \<in> set (genes a). gene_ok s g" and "\<forall>g \<in> set (genes b). gene_ok s g"
    and "length (sensors a) = length (sensors b)" and "length (outputs a) = length (outputs b)"
  shows "(\<exists>offspring s'. mate maxAlloc a b s = Inr (offspring, s'))
           \<longleftrightarrow> alloc_ok maxAlloc (length (sensors a)) (length (outputs a))"
proof (cases "alloc_ok maxAlloc (length (sensors a)) (length (outputs a))")
  case True
  from mate_eq [OF assms True] show ?thesis using True by (metis prod.collapse)
next
  case False
  then show ?thesis using assms(3,4) by (simp add: mate_unfold)
qed

section \<open>Crossover: the offspring's genes are sorted\<close>

text \<open>
  C5: for two genomes whose genes are allocated objects, with equal sensor and output
  counts and gene sequences strictly ascending by innovation number, every offspring
  that \<open>mate\<close> returns has a gene sequence strictly ascending by innovation number; its
  innovation numbers are those of the two parents, each kept once.  \<open>mate\<close> returns an
  offspring exactly when the \<open>make\<close> calls of its \<open>_newOrganism\<close> succeed.
\<close>

theorem mate_sorted:
  assumes "\<forall>g \<in> set (genes a). gene_ok s g" and "\<forall>g \<in> set (genes b). gene_ok s g"
    and "length (sensors a) = length (sensors b)" and "length (outputs a) = length (outputs b)"
    and "sorted_wrt (<) (map (getInnovation s) (genes a))"
    and "sorted_wrt (<) (map (getInnovation s) (genes b))"
  shows "((\<exists>offspring s'. mate maxAlloc a b s = Inr (offspring, s'))
            \<longleftrightarrow> alloc_ok maxAlloc (length (sensors a)) (length (outputs a))) \<and>
         (\<forall>offspring s'. mate maxAlloc a b s = Inr (offspring, s') \<longrightarrow>
            sorted_wrt (<) (map (getInnovation s') (genes offspring)) \<and>
            set (map (getInnovation s') (genes offspring))
              = set (map (getInnovation s) (genes a)) \<union> set (map (getInnovation s) (genes b)))"
proof (intro conjI allI impI)
  show "(\<exists>offspring s'. mate maxAlloc a b s = Inr (offspring, s'))
          \<longleftrightarrow> alloc_ok maxAlloc (length (sensors a)) (length (outputs a))"
    using assms(1-4) by (rule mate_returns)
next
  fix offspring s'
  assume r: "mate maxAlloc a b s = Inr (offspring, s')"
  have al: "alloc_ok maxAlloc (length (sensors a)) (length (outputs a))"
    using mate_returns [OF assms(1-4), of maxAlloc] r by blast
  let ?iv = "getInnovation s"
  let ?ms = "merge_genes ?iv (fitness a > fitness b) (genes a) (genes b)"
  let ?off0 = "empty_organism
                     \<lparr>generation := generation a + 1\<rparr>"
  let ?r = "inherit_all ?ms (?off0, s)"
  have m: "mate maxAlloc a b s = Inr ?r" using assms(1-4) al by (rule mate_eq)
  have e: "?r = (offspring, s')" using m r by simp
  have sub: "set ?ms \<subseteq> set (genes a) \<union> set (genes b)"
    by (rule merge_genes_subset)
  have ok: "\<forall>g \<in> set ?ms. gene_ok s g"
  proof
    fix g assume "g \<in> set ?ms"
    then have "g \<in> set (genes a) \<union> set (genes b)"
      using sub by blast
    then show "gene_ok s g" using assms(1,2) by auto
  qed
  have g0: "\<forall>g \<in> set (genes ?off0). gene_ok s g" by (simp add: empty_organism_def)
  have d: "map (deref (snd ?r)) (genes (fst ?r)) = map (deref s) ?ms"
    using inherit_all_deref [OF ok g0] by (simp add: empty_organism_def)
  have "map (getInnovation (snd ?r)) (genes (fst ?r))
          = map (\<lambda>c. case c of Inl n \<Rightarrow> n_innovation n | Inr y \<Rightarrow> s_innovation y)
              (map (deref (snd ?r)) (genes (fst ?r)))"
    by (simp add: getInnovation_deref)
  also have "\<dots> = map ?iv ?ms" by (simp only: d) (simp add: getInnovation_deref)
  finally have iv: "map (getInnovation (snd ?r)) (genes (fst ?r)) = map ?iv ?ms" .
  have "sorted_wrt (<) (map ?iv ?ms)" using assms(5,6) by (rule merge_genes_sorted)
  moreover have "set (map ?iv ?ms) = set (map ?iv (genes a)) \<union> set (map ?iv (genes b))"
    by (simp add: merge_genes_image)
  ultimately show "sorted_wrt (<) (map (getInnovation s') (genes offspring))"
    and "set (map (getInnovation s') (genes offspring))
        = set (map (getInnovation s) (genes a)) \<union> set (map (getInnovation s) (genes b))"
    using iv e by simp_all
qed

theorem mate_sorted_witness:
  "\<exists>offspring s3.
     mate 1024 org_a org_b state_ab = Inr (offspring, s3) \<and>
     sorted_wrt (<) (map (getInnovation s3) (genes offspring)) \<and>
     set (map (getInnovation s3) (genes offspring)) = {1, 2, 3, 4, 5, 6}"
proof -
  have iva: "map (getInnovation state_ab) (genes org_a) = [1, 2, 3]"
    by (simp add: org_a_def state_ab_def getInnovation_def)
  have ivb: "map (getInnovation state_ab) (genes org_b) = [4, 5, 6]"
    by (simp add: org_b_def state_ab_def getInnovation_def)
  have h1: "\<forall>g \<in> set (genes org_a). gene_ok state_ab g"
    by (simp add: org_a_def state_ab_def gene_ok_def)
  have h2: "\<forall>g \<in> set (genes org_b). gene_ok state_ab g"
    by (simp add: org_b_def state_ab_def gene_ok_def)
  have h3: "length (sensors org_a) = length (sensors org_b)"
    and h4: "length (outputs org_a) = length (outputs org_b)"
    by (simp_all add: org_a_def org_b_def)
  have h5: "sorted_wrt (<) (map (getInnovation state_ab) (genes org_a))" by (simp add: iva)
  have h6: "sorted_wrt (<) (map (getInnovation state_ab) (genes org_b))" by (simp add: ivb)
  have u: "set (map (getInnovation state_ab) (genes org_a))
          \<union> set (map (getInnovation state_ab) (genes org_b)) = {1, 2, 3, 4, 5, 6}"
    by (simp only: iva ivb) auto
  have al: "alloc_ok 1024 (length (sensors org_a)) (length (outputs org_a))"
    using alloc_ok_1_1 by (simp add: org_a_def)
  note t = mate_sorted [OF h1 h2 h3 h4 h5 h6, of 1024]
  from t al obtain offspring s3 where
    m: "mate 1024 org_a org_b state_ab = Inr (offspring, s3)" by blast
  from t m have "sorted_wrt (<) (map (getInnovation s3) (genes offspring))"
    and "set (map (getInnovation s3) (genes offspring))
      = set (map (getInnovation state_ab) (genes org_a))
          \<union> set (map (getInnovation state_ab) (genes org_b))"
    by blast+
  with m u show ?thesis by (intro exI [of _ offspring] exI [of _ s3]) simp
qed

section \<open>Crossover: the cases of the merge\<close>

lemma mate_loop_a_exhausted:
  "length (genes a) \<le> i \<Longrightarrow>
     mate_loop a b (i, j, off, s) = Inr (inherit_all (drop j (genes b)) (off, s))"
proof (induction "length (genes b) - j" arbitrary: j off s)
  case 0
  then show ?case using mate_loop.simps [of a b i j off s] by simp
next
  case (Suc n)
  then have j: "j < length (genes b)" by simp
  obtain off1 s1 where st: "inherit (genes b ! j) (off, s) = (off1, s1)"
    by (cases "inherit (genes b ! j) (off, s)")
  have "mate_step a b (i, j, off, s) = Inr (i, j + 1, off1, s1)"
    using Suc.prems j st by (simp add: mate_step_def Let_def)
  then have "mate_loop a b (i, j, off, s) = mate_loop a b (i, j + 1, off1, s1)"
    using mate_loop.simps [of a b i j off s] j by simp
  moreover have "mate_loop a b (i, j + 1, off1, s1)
      = Inr (inherit_all (drop (j + 1) (genes b)) (off1, s1))"
    using Suc.hyps(2) Suc.prems by (intro Suc.hyps(1)) simp_all
  moreover have "drop j (genes b) = genes b ! j # drop (j + 1) (genes b)"
    using j by (simp add: Cons_nth_drop_Suc)
  ultimately show ?case using st by simp
qed

lemma mate_loop_b_exhausted:
  "length (genes b) \<le> j \<Longrightarrow>
     mate_loop a b (i, j, off, s) = Inr (inherit_all (drop i (genes a)) (off, s))"
proof (induction "length (genes a) - i" arbitrary: i off s)
  case 0
  then show ?case using mate_loop.simps [of a b i j off s] by simp
next
  case (Suc n)
  then have i: "i < length (genes a)" by simp
  obtain off1 s1 where st: "inherit (genes a ! i) (off, s) = (off1, s1)"
    by (cases "inherit (genes a ! i) (off, s)")
  have "mate_step a b (i, j, off, s) = Inr (i + 1, j, off1, s1)"
    using Suc.prems i st by (simp add: mate_step_def Let_def)
  then have "mate_loop a b (i, j, off, s) = mate_loop a b (i + 1, j, off1, s1)"
    using mate_loop.simps [of a b i j off s] i by simp
  moreover have "mate_loop a b (i + 1, j, off1, s1)
      = Inr (inherit_all (drop (i + 1) (genes a)) (off1, s1))"
    using Suc.hyps(2) Suc.prems by (intro Suc.hyps(1)) simp_all
  moreover have "drop i (genes a) = genes a ! i # drop (i + 1) (genes a)"
    using i by (simp add: Cons_nth_drop_Suc)
  ultimately show ?case using st by simp
qed

lemma mate_loop_step:
  "i < length (genes a) \<or> j < length (genes b) \<Longrightarrow>
     mate_step a b (i, j, off, s) = Inr st \<Longrightarrow>
     mate_loop a b (i, j, off, s) = mate_loop a b st"
  using mate_loop.simps [of a b i j off s] by simp

text \<open>
  C6: \<open>mate(a, b)\<close> stops on unequal sensor or output counts and on a failing \<open>make\<close>,
  and otherwise runs its loop from the cursors 0 and 0 and the empty offspring of
  generation \<open>a.generation + 1\<close>.  In the loop, with cursors \<open>i\<close> into the genes of \<open>a\<close>
  and \<open>j\<close> into the genes of \<open>b\<close>: on equal innovation numbers the offspring inherits
  from \<open>a\<close> if \<open>a.fitness > b.fitness\<close> and from \<open>b\<close> otherwise, and both cursors advance
  by one; on a strictly lower innovation number that parent's gene is inherited and
  only its cursor advances; when one parent is exhausted the remaining genes of the
  other are inherited one after the other, and the loop ends.  What is inherited is a
  copy: a fresh object with the contents of the parent's gene, appended to the
  offspring's genes.  For parents whose genes are allocated objects the offspring
  is so the merge of the two gene sequences.
\<close>

theorem mate_cases:
  "mate maxAlloc a b s =
     (if length (sensors a) \<noteq> length (sensors b) \<or> length (outputs a) \<noteq> length (outputs b)
      then Inl FatalMateArity
      else if \<not> alloc_ok maxAlloc (length (sensors a)) (length (outputs a))
      then Inl MakeSliceLen
      else mate_loop a b (0, 0, empty_organism\<lparr>generation := generation a + 1\<rparr>, s)) \<and>
   (i < length (genes a) \<and> j < length (genes b) \<and>
      getInnovation t (genes a ! i) = getInnovation t (genes b ! j) \<longrightarrow>
      mate_loop a b (i, j, off, t) =
        mate_loop a b
          (i + 1, j + 1,
           inherit (if fitness a > fitness b then genes a ! i else genes b ! j) (off, t))) \<and>
   (i < length (genes a) \<and> j < length (genes b) \<and>
      getInnovation t (genes a ! i) < getInnovation t (genes b ! j) \<longrightarrow>
      mate_loop a b (i, j, off, t) = mate_loop a b (i + 1, j, inherit (genes a ! i) (off, t))) \<and>
   (i < length (genes a) \<and> j < length (genes b) \<and>
      getInnovation t (genes b ! j) < getInnovation t (genes a ! i) \<longrightarrow>
      mate_loop a b (i, j, off, t) = mate_loop a b (i, j + 1, inherit (genes b ! j) (off, t))) \<and>
   (length (genes a) \<le> i \<longrightarrow>
      mate_loop a b (i, j, off, t) = Inr (inherit_all (drop j (genes b)) (off, t))) \<and>
   (length (genes b) \<le> j \<longrightarrow>
      mate_loop a b (i, j, off, t) = Inr (inherit_all (drop i (genes a)) (off, t))) \<and>
   inherit_all (g # gs) (off, t) = inherit_all gs (inherit g (off, t)) \<and>
   inherit_all [] (off, t) = (off, t) \<and>
   (gene_ok t g \<longrightarrow>
      genes (fst (inherit g (off, t))) = genes off @ [fresh_gene t g] \<and>
      \<not> gene_ok t (fresh_gene t g) \<and>
      deref (snd (inherit g (off, t))) (fresh_gene t g) = deref t g \<and>
      deref (snd (inherit g (off, t))) g = deref t g) \<and>
   ((\<forall>x \<in> set (genes a). gene_ok s x) \<and> (\<forall>x \<in> set (genes b). gene_ok s x) \<and>
      length (sensors a) = length (sensors b) \<and> length (outputs a) = length (outputs b) \<and>
      alloc_ok maxAlloc (length (sensors a)) (length (outputs a)) \<longrightarrow>
      mate maxAlloc a b s =
        Inr (inherit_all
               (merge_genes (getInnovation s) (fitness a > fitness b) (genes a) (genes b))
               (empty_organism\<lparr>generation := generation a + 1\<rparr>, s)))"
proof (intro conjI impI)
  show "mate maxAlloc a b s =
     (if length (sensors a) \<noteq> length (sensors b) \<or> length (outputs a) \<noteq> length (outputs b)
      then Inl FatalMateArity
      else if \<not> alloc_ok maxAlloc (length (sensors a)) (length (outputs a))
      then Inl MakeSliceLen
      else mate_loop a b (0, 0, empty_organism\<lparr>generation := generation a + 1\<rparr>, s))"
    by (rule mate_unfold)
next
  assume h: "i < length (genes a) \<and> j < length (genes b) \<and>
      getInnovation t (genes a ! i) = getInnovation t (genes b ! j)"
  then have "mate_step a b (i, j, off, t) =
      Inr (i + 1, j + 1,
           inherit (if fitness a > fitness b then genes a ! i else genes b ! j) (off, t))"
    by (simp add: mate_step_def Let_def)
  with h show "mate_loop a b (i, j, off, t) =
      mate_loop a b
        (i + 1, j + 1,
         inherit (if fitness a > fitness b then genes a ! i else genes b ! j) (off, t))"
    by (intro mate_loop_step) simp
next
  assume h: "i < length (genes a) \<and> j < length (genes b) \<and>
      getInnovation t (genes a ! i) < getInnovation t (genes b ! j)"
  then have "mate_step a b (i, j, off, t) = Inr (i + 1, j, inherit (genes a ! i) (off, t))"
    by (auto simp: mate_step_def Let_def)
  with h show "mate_loop a b (i, j, off, t)
      = mate_loop a b (i + 1, j, inherit (genes a ! i) (off, t))"
    by (intro mate_loop_step) simp
next
  assume h: "i < length (genes a) \<and> j < length (genes b) \<and>
      getInnovation t (genes b ! j) < getInnovation t (genes a ! i)"
  then have "mate_step a b (i, j, off, t) = Inr (i, j + 1, inherit (genes b ! j) (off, t))"
    by (auto simp: mate_step_def Let_def)
  with h show "mate_loop a b (i, j, off, t)
      = mate_loop a b (i, j + 1, inherit (genes b ! j) (off, t))"
    by (intro mate_loop_step) simp
next
  assume "length (genes a) \<le> i"
  then show "mate_loop a b (i, j, off, t) = Inr (inherit_all (drop j (genes b)) (off, t))"
    by (rule mate_loop_a_exhausted)
next
  assume "length (genes b) \<le> j"
  then show "mate_loop a b (i, j, off, t) = Inr (inherit_all (drop i (genes a)) (off, t))"
    by (rule mate_loop_b_exhausted)
next
  show "inherit_all (g # gs) (off, t) = inherit_all gs (inherit g (off, t))" by simp
next
  show "inherit_all [] (off, t) = (off, t)" by simp
next
  assume "gene_ok t g"
  show "genes (fst (inherit g (off, t))) = genes off @ [fresh_gene t g]"
    using inherit_add_gene [of g off t] by (metis fst_conv genes_add_gene)
next
  show "\<not> gene_ok t (fresh_gene t g)" by (rule inherit_fresh_new)
next
  show "deref (snd (inherit g (off, t))) (fresh_gene t g) = deref t g" by (rule inherit_deref)
next
  assume "gene_ok t g"
  with inherit_extends show "deref (snd (inherit g (off, t))) g = deref t g"
    by (rule deref_extends)
next
  assume h: "(\<forall>x \<in> set (genes a). gene_ok s x) \<and> (\<forall>x \<in> set (genes b). gene_ok s x) \<and>
      length (sensors a) = length (sensors b) \<and> length (outputs a) = length (outputs b) \<and>
      alloc_ok maxAlloc (length (sensors a)) (length (outputs a))"
  then have h1: "\<forall>x \<in> set (genes a). gene_ok s x" and h2: "\<forall>x \<in> set (genes b). gene_ok s x"
    and h3: "length (sensors a) = length (sensors b)"
    and h4: "length (outputs a) = length (outputs b)"
    and h5: "alloc_ok maxAlloc (length (sensors a)) (length (outputs a))" by blast+
  from h1 h2 h3 h4 h5 show "mate maxAlloc a b s =
      Inr (inherit_all
             (merge_genes (getInnovation s) (fitness a > fitness b) (genes a) (genes b))
             (empty_organism\<lparr>generation := generation a + 1\<rparr>, s))"
    by (rule mate_eq)
qed

text \<open>
  The cases on the genomes of the second state: \<open>mate(a, a)\<close>, \<open>mate(a, b)\<close> and
  \<open>mate(b, a)\<close> at the first genes, the two exhausted cases, and the offspring of
  \<open>mate(a, b)\<close>, which has the six genes of the parents.
\<close>

theorem mate_cases_witness:
  "mate_loop org_a org_a (0, 0, empty_organism, state_ab) =
     mate_loop org_a org_a (1, 1, inherit (NeuronGene 0) (empty_organism, state_ab)) \<and>
   mate_loop org_a org_b (0, 0, empty_organism, state_ab) =
     mate_loop org_a org_b (1, 0, inherit (NeuronGene 0) (empty_organism, state_ab)) \<and>
   mate_loop org_b org_a (0, 0, empty_organism, state_ab) =
     mate_loop org_b org_a (0, 1, inherit (NeuronGene 0) (empty_organism, state_ab)) \<and>
   mate_loop org_a org_b (3, 1, empty_organism, state_ab) =
     Inr (inherit_all [NeuronGene 3, SynapseGene 1] (empty_organism, state_ab)) \<and>
   mate_loop org_a org_b (2, 3, empty_organism, state_ab) =
     Inr (inherit_all [SynapseGene 0] (empty_organism, state_ab)) \<and>
   genes (fst (inherit (NeuronGene 0) (empty_organism, state_ab))) = [NeuronGene 4] \<and>
   deref (snd (inherit (NeuronGene 0) (empty_organism, state_ab))) (NeuronGene 4)
     = deref state_ab (NeuronGene 0) \<and>
   mate 1024 org_a org_b state_ab =
     Inr (inherit_all
            [NeuronGene 0, NeuronGene 1, SynapseGene 0, NeuronGene 2, NeuronGene 3, SynapseGene 1]
            (empty_organism\<lparr>generation := 1\<rparr>, state_ab))"
proof -
  have ga: "genes org_a = [NeuronGene 0, NeuronGene 1, SynapseGene 0]" by (simp add: org_a_def)
  have gb: "genes org_b = [NeuronGene 2, NeuronGene 3, SynapseGene 1]" by (simp add: org_b_def)
  have fa: "\<not> fitness org_a > fitness org_a" by simp
  have fb: "(fitness org_a > fitness org_b) = False" by (simp add: org_a_def org_b_def)
  have iv: "getInnovation state_ab (NeuronGene 0) = 1" "getInnovation state_ab (NeuronGene 1) = 2"
    "getInnovation state_ab (SynapseGene 0) = 3" "getInnovation state_ab (NeuronGene 2) = 4"
    "getInnovation state_ab (NeuronGene 3) = 5" "getInnovation state_ab (SynapseGene 1) = 6"
    "getInnovation state_ab (NeuronGene (Suc 0)) = 2"
    "getInnovation state_ab (SynapseGene (Suc 0)) = 6"
    by (simp_all add: state_ab_def getInnovation_def)
  have ok: "gene_ok state_ab (NeuronGene 0)" by (simp add: gene_ok_def state_ab_def)
  have oka: "\<forall>x \<in> set (genes org_a). gene_ok state_ab x"
    by (simp add: ga gene_ok_def state_ab_def)
  have okb: "\<forall>x \<in> set (genes org_b). gene_ok state_ab x"
    by (simp add: gb gene_ok_def state_ab_def)
  have fr: "fresh_gene state_ab (NeuronGene 0) = NeuronGene 4"
    by (simp add: fresh_gene_def state_ab_def)
  have ar: "length (sensors org_a) = length (sensors org_b)"
    "length (outputs org_a) = length (outputs org_b)"
    by (simp_all add: org_a_def org_b_def)
  have al: "alloc_ok 1024 (length (sensors org_a)) (length (outputs org_a))"
    using alloc_ok_1_1 by (simp add: org_a_def)
  have gen: "generation org_a + 1 = 1" by (simp add: org_a_def)
  have mg: "merge_genes (getInnovation state_ab) False (genes org_a) (genes org_b)
      = [NeuronGene 0, NeuronGene 1, SynapseGene 0, NeuronGene 2, NeuronGene 3, SynapseGene 1]"
    by (simp add: ga gb iv)
  note c = mate_cases
    [where t = state_ab and off = empty_organism and s = state_ab and maxAlloc = 1024
       and g = "NeuronGene 0"]
  have c1: "mate_loop org_a org_a (0, 0, empty_organism, state_ab) =
      mate_loop org_a org_a (1, 1, inherit (NeuronGene 0) (empty_organism, state_ab))"
    using c [where a = org_a and b = org_a and i = 0 and j = 0] by (simp add: ga)
  have c2: "mate_loop org_a org_b (0, 0, empty_organism, state_ab) =
      mate_loop org_a org_b (1, 0, inherit (NeuronGene 0) (empty_organism, state_ab))"
    using c [where a = org_a and b = org_b and i = 0 and j = 0] by (simp add: ga gb iv)
  have c3: "mate_loop org_b org_a (0, 0, empty_organism, state_ab) =
      mate_loop org_b org_a (0, 1, inherit (NeuronGene 0) (empty_organism, state_ab))"
    using c [where a = org_b and b = org_a and i = 0 and j = 0] by (simp add: ga gb iv)
  have c4: "mate_loop org_a org_b (3, 1, empty_organism, state_ab) =
      Inr (inherit_all [NeuronGene 3, SynapseGene 1] (empty_organism, state_ab))"
    using c [where a = org_a and b = org_b and i = 3 and j = 1] by (simp add: ga gb)
  have c5: "mate_loop org_a org_b (2, 3, empty_organism, state_ab) =
      Inr (inherit_all [SynapseGene 0] (empty_organism, state_ab))"
    using c [where a = org_a and b = org_b and i = 2 and j = 3] by (simp add: ga gb)
  have c6: "genes (fst (inherit (NeuronGene 0) (empty_organism, state_ab))) = [NeuronGene 4]"
    "deref (snd (inherit (NeuronGene 0) (empty_organism, state_ab))) (NeuronGene 4)
       = deref state_ab (NeuronGene 0)"
    using c [where a = org_a and b = org_a and i = 0 and j = 0] ok fr
    by (simp_all add: empty_organism_def)
  have c7: "mate 1024 org_a org_b state_ab =
      Inr (inherit_all
             [NeuronGene 0, NeuronGene 1, SynapseGene 0, NeuronGene 2, NeuronGene 3, SynapseGene 1]
             (empty_organism\<lparr>generation := 1\<rparr>, state_ab))"
  proof -
    have "mate 1024 org_a org_b state_ab =
        Inr (inherit_all
               (merge_genes (getInnovation state_ab) (fitness org_a > fitness org_b)
                  (genes org_a) (genes org_b))
               (empty_organism\<lparr>generation := generation org_a + 1\<rparr>, state_ab))"
      using c [where a = org_a and b = org_b and i = 0 and j = 0] oka okb ar al by blast
    then show ?thesis by (simp only: fb gen mg)
  qed
  from c1 c2 c3 c4 c5 c6 c7 show ?thesis by (intro conjI)
qed

section \<open>Properties of genomes\<close>

lemma ids_of_kind_append [simp]:
  "ids_of_kind k (cs @ ds) = ids_of_kind k cs @ ids_of_kind k ds"
  by (simp add: ids_of_kind_def)

lemma ids_of_kind_Nil [simp]: "ids_of_kind k [] = []"
  by (simp add: ids_of_kind_def)

lemma sensors_add_gene:
  "sensors (add_gene g s org) = sensors org @ ids_of_kind sensorNeuron [deref s g]"
  by (simp add: add_gene_def addNeuron_def addSynapse_def ids_of_kind_def deref_def Let_def
      split: gene.splits neuronKind.splits)

lemma outputs_add_gene:
  "outputs (add_gene g s org) = outputs org @ ids_of_kind outputNeuron [deref s g]"
  by (simp add: add_gene_def addNeuron_def addSynapse_def ids_of_kind_def deref_def Let_def
      split: gene.splits neuronKind.splits)

lemma replay_snoc: "replay s (gs @ [g]) org = add_gene g s (replay s gs org)"
  by (simp add: replay_def)

lemma replay_Cons: "replay s (g # gs) org = replay s gs (add_gene g s org)"
  by (simp add: replay_def)

lemma replay_Nil [simp]: "replay s [] org = org"
  by (simp add: replay_def)

lemma sensors_replay:
  "sensors (replay s gs org) = sensors org @ ids_of_kind sensorNeuron (map (deref s) gs)"
  by (induction gs arbitrary: org) (simp_all add: replay_Cons sensors_add_gene ids_of_kind_def)

lemma outputs_replay:
  "outputs (replay s gs org) = outputs org @ ids_of_kind outputNeuron (map (deref s) gs)"
  by (induction gs arbitrary: org) (simp_all add: replay_Cons outputs_add_gene ids_of_kind_def)

lemma wf_genome_ok: "wf_genome org s \<Longrightarrow> \<forall>g \<in> set (genes org). gene_ok s g"
  by (simp add: wf_genome_def list_all_iff)

lemma wf_genome_sensors:
  assumes "wf_genome org s"
  shows "sensors org = ids_of_kind sensorNeuron (map (deref s) (genes org))"
proof -
  have "org = (replay s (genes org) empty_organism)
             \<lparr>generation := generation org, fitness := fitness org\<rparr>"
    using assms by (simp add: wf_genome_def)
  then have "sensors org = sensors (replay s (genes org) empty_organism)"
    by (metis organism.select_convs(1) organism.surjective organism.update_convs(7,8))
  then show ?thesis by (simp add: sensors_replay empty_organism_def)
qed

lemma wf_genome_outputs:
  assumes "wf_genome org s"
  shows "outputs org = ids_of_kind outputNeuron (map (deref s) (genes org))"
proof -
  have "org = (replay s (genes org) empty_organism)
             \<lparr>generation := generation org, fitness := fitness org\<rparr>"
    using assms by (simp add: wf_genome_def)
  then have "outputs org = outputs (replay s (genes org) empty_organism)"
    by (metis organism.select_convs(2) organism.surjective organism.update_convs(7,8))
  then show ?thesis by (simp add: outputs_replay empty_organism_def)
qed

lemma inherit_all_arity:
  assumes "\<forall>g \<in> set gs. gene_ok s g"
  shows "sensors (fst (inherit_all gs (off, s)))
           = sensors off @ ids_of_kind sensorNeuron (map (deref s) gs) \<and>
         outputs (fst (inherit_all gs (off, s)))
           = outputs off @ ids_of_kind outputNeuron (map (deref s) gs)"
  using assms
proof (induction gs arbitrary: off s)
  case Nil
  show ?case by simp
next
  case (Cons g gs)
  obtain off1 s1 where st: "inherit g (off, s) = (off1, s1)" by (cases "inherit g (off, s)")
  have ext: "extends s s1" using inherit_extends [of s g off] st by simp
  have off1: "off1 = add_gene (fresh_gene s g) s1 off"
    using inherit_add_gene [of g off s] st by simp
  have df: "deref s1 (fresh_gene s g) = deref s g" using inherit_deref [of g off s] st by simp
  have ok1: "\<forall>h \<in> set gs. gene_ok s1 h"
    using Cons.prems ext by (auto intro: gene_ok_extends)
  have d2: "map (deref s1) gs = map (deref s) gs"
    using Cons.prems ext by (simp add: deref_extends)
  have "sensors off1 = sensors off @ ids_of_kind sensorNeuron [deref s g]"
    and "outputs off1 = outputs off @ ids_of_kind outputNeuron [deref s g]"
    by (simp_all add: off1 sensors_add_gene outputs_add_gene df)
  with Cons.IH [OF ok1, of off1] d2 st show ?case
    by (simp add: ids_of_kind_def)
qed

lemma clone_loop_inherit_all: "clone_loop gs cs = inherit_all gs cs"
proof (induction gs cs rule: clone_loop.induct)
  case (1 cs)
  show ?case by simp
next
  case (2 p gs clone s)
  then show ?case
    by (simp add: inherit_def neuron_clone_def split: prod.splits)
next
  case (3 p gs clone s)
  then show ?case
    by (simp add: inherit_def synapse_clone_def split: prod.splits)
qed

lemma length_ids_of_kind_mset:
  assumes "mset cs = mset ds + mset es"
  shows "length (ids_of_kind k cs) = length (ids_of_kind k ds) + length (ids_of_kind k es)"
proof -
  let ?f = "\<lambda>c. length (case c of Inl n \<Rightarrow> (if n_kind n = k then [n_id n] else [])
                              | Inr (y::synapse) \<Rightarrow> [])"
  have len: "\<And>xs. length (ids_of_kind k xs) = sum_mset (image_mset ?f (mset xs))"
  proof -
    fix xs
    have "length (ids_of_kind k xs) = sum_list (map ?f xs)"
      by (simp add: ids_of_kind_def length_concat comp_def)
    also have "\<dots> = sum_mset (mset (map ?f xs))" by (simp only: sum_mset_sum_list)
    also have "\<dots> = sum_mset (image_mset ?f (mset xs))" by (simp only: mset_map)
    finally show "length (ids_of_kind k xs) = sum_mset (image_mset ?f (mset xs))" .
  qed
  show ?thesis by (simp add: len assms)
qed

section \<open>Crossover of genomes without a common innovation number\<close>

text \<open>
  C10: for two genomes with equal sensor counts and equal output counts and no
  innovation number in common, every offspring that \<open>mate\<close> returns has inherited
  every gene of both parents, and has \<open>len(a.sensors) + len(b.sensors)\<close> sensors and
  \<open>len(a.outputs) + len(b.outputs)\<close> outputs.  \<open>mate\<close> returns an offspring exactly
  when the \<open>make\<close> calls of its \<open>_newOrganism\<close> succeed.
\<close>

theorem mate_disjoint_arity:
  assumes "wf_genome a s" and "wf_genome b s"
    and "length (sensors a) = length (sensors b)" and "length (outputs a) = length (outputs b)"
    and "set (map (getInnovation s) (genes a)) \<inter> set (map (getInnovation s) (genes b)) = {}"
  shows "((\<exists>offspring s'. mate maxAlloc a b s = Inr (offspring, s'))
            \<longleftrightarrow> alloc_ok maxAlloc (length (sensors a)) (length (outputs a))) \<and>
         (\<forall>offspring s'. mate maxAlloc a b s = Inr (offspring, s') \<longrightarrow>
            mset (map (deref s') (genes offspring))
              = mset (map (deref s) (genes a)) + mset (map (deref s) (genes b)) \<and>
            length (sensors offspring) = length (sensors a) + length (sensors b) \<and>
            length (outputs offspring) = length (outputs a) + length (outputs b))"
proof (intro conjI allI impI)
  have oka: "\<forall>g \<in> set (genes a). gene_ok s g" using assms(1) by (rule wf_genome_ok)
  have okb: "\<forall>g \<in> set (genes b). gene_ok s g" using assms(2) by (rule wf_genome_ok)
  show "(\<exists>offspring s'. mate maxAlloc a b s = Inr (offspring, s'))
          \<longleftrightarrow> alloc_ok maxAlloc (length (sensors a)) (length (outputs a))"
    using oka okb assms(3,4) by (rule mate_returns)
next
  fix offspring s'
  assume r: "mate maxAlloc a b s = Inr (offspring, s')"
  let ?iv = "getInnovation s"
  let ?ms = "merge_genes ?iv (fitness a > fitness b) (genes a) (genes b)"
  let ?off0 = "empty_organism
                     \<lparr>generation := generation a + 1\<rparr>"
  let ?r = "inherit_all ?ms (?off0, s)"
  have oka: "\<forall>g \<in> set (genes a). gene_ok s g" using assms(1) by (rule wf_genome_ok)
  have okb: "\<forall>g \<in> set (genes b). gene_ok s g" using assms(2) by (rule wf_genome_ok)
  have al: "alloc_ok maxAlloc (length (sensors a)) (length (outputs a))"
    using mate_returns [OF oka okb assms(3,4), of maxAlloc] r by blast
  have m: "mate maxAlloc a b s = Inr ?r" using oka okb assms(3,4) al by (rule mate_eq)
  have e: "?r = (offspring, s')" using m r by simp
  have ok: "\<forall>g \<in> set ?ms. gene_ok s g"
    using merge_genes_subset [of ?iv "fitness a > fitness b" "genes a" "genes b"] oka okb
    by blast
  have ms: "mset ?ms = mset (genes a) + mset (genes b)"
    using assms(5) by (intro merge_genes_disjoint_mset) simp
  then have dms: "mset (map (deref s) ?ms)
      = mset (map (deref s) (genes a)) + mset (map (deref s) (genes b))"
    by (metis image_mset_union mset_map)
  have g0: "\<forall>g \<in> set (genes ?off0). gene_ok s g" by (simp add: empty_organism_def)
  have d: "map (deref (snd ?r)) (genes (fst ?r)) = map (deref s) ?ms"
    using inherit_all_deref [OF ok g0] by (simp add: empty_organism_def)
  have ar: "sensors (fst ?r) = ids_of_kind sensorNeuron (map (deref s) ?ms)"
      "outputs (fst ?r) = ids_of_kind outputNeuron (map (deref s) ?ms)"
    using inherit_all_arity [OF ok, of ?off0] by (simp_all add: empty_organism_def)
  have "length (sensors (fst ?r)) = length (ids_of_kind sensorNeuron (map (deref s) ?ms))"
    by (simp only: ar)
  also have "\<dots> = length (ids_of_kind sensorNeuron (map (deref s) (genes a)))
      + length (ids_of_kind sensorNeuron (map (deref s) (genes b)))"
    by (rule length_ids_of_kind_mset [OF dms])
  also have "\<dots> = length (sensors a) + length (sensors b)"
    by (simp only: wf_genome_sensors [OF assms(1), symmetric]
        wf_genome_sensors [OF assms(2), symmetric])
  finally have ls: "length (sensors (fst ?r)) = length (sensors a) + length (sensors b)" .
  have "length (outputs (fst ?r)) = length (ids_of_kind outputNeuron (map (deref s) ?ms))"
    by (simp only: ar)
  also have "\<dots> = length (ids_of_kind outputNeuron (map (deref s) (genes a)))
      + length (ids_of_kind outputNeuron (map (deref s) (genes b)))"
    by (rule length_ids_of_kind_mset [OF dms])
  also have "\<dots> = length (outputs a) + length (outputs b)"
    by (simp only: wf_genome_outputs [OF assms(1), symmetric]
        wf_genome_outputs [OF assms(2), symmetric])
  finally have lo: "length (outputs (fst ?r)) = length (outputs a) + length (outputs b)" .
  note ls lo
  moreover have "mset (map (deref (snd ?r)) (genes (fst ?r)))
      = mset (map (deref s) (genes a)) + mset (map (deref s) (genes b))"
    by (simp only: d dms)
  ultimately show "mset (map (deref s') (genes offspring))
        = mset (map (deref s) (genes a)) + mset (map (deref s) (genes b))"
    and "length (sensors offspring) = length (sensors a) + length (sensors b)"
    and "length (outputs offspring) = length (outputs a) + length (outputs b)"
    using e by simp_all
qed

lemma wf_org_a: "wf_genome org_a state_ab"
  by (simp add: wf_genome_def org_a_def state_ab_def gene_ok_def replay_def add_gene_def
      addNeuron_def addSynapse_def empty_organism_def conns_def Let_def)

lemma wf_org_b: "wf_genome org_b state_ab"
  by (simp add: wf_genome_def org_b_def state_ab_def gene_ok_def replay_def add_gene_def
      addNeuron_def addSynapse_def empty_organism_def conns_def Let_def)

theorem mate_disjoint_arity_witness:
  "\<exists>offspring s'. mate 1024 org_a org_b state_ab = Inr (offspring, s') \<and>
     mset (map (deref s') (genes offspring))
       = mset (map (deref state_ab) (genes org_a)) + mset (map (deref state_ab) (genes org_b)) \<and>
     length (sensors offspring) = 2 \<and> length (outputs offspring) = 2"
proof -
  have h3: "length (sensors org_a) = length (sensors org_b)"
    and h4: "length (outputs org_a) = length (outputs org_b)"
    by (simp_all add: org_a_def org_b_def)
  have h5: "set (map (getInnovation state_ab) (genes org_a))
      \<inter> set (map (getInnovation state_ab) (genes org_b)) = {}"
    by (simp add: org_a_def org_b_def state_ab_def getInnovation_def)
  have l: "length (sensors org_a) + length (sensors org_b) = 2"
    "length (outputs org_a) + length (outputs org_b) = 2"
    by (simp_all add: org_a_def org_b_def)
  have al: "alloc_ok 1024 (length (sensors org_a)) (length (outputs org_a))"
    using alloc_ok_1_1 by (simp add: org_a_def)
  note t = mate_disjoint_arity [OF wf_org_a wf_org_b h3 h4 h5, of 1024]
  from t al obtain offspring s' where
    m: "mate 1024 org_a org_b state_ab = Inr (offspring, s')" by blast
  from t m have "mset (map (deref s') (genes offspring))
      = mset (map (deref state_ab) (genes org_a)) + mset (map (deref state_ab) (genes org_b))"
    and "length (sensors offspring) = length (sensors org_a) + length (sensors org_b)"
    and "length (outputs offspring) = length (outputs org_a) + length (outputs org_b)"
    by blast+
  with m show ?thesis by (intro exI [of _ offspring] exI [of _ s']) (simp only: l)
qed

lemma merge_genes_same:
  "map iv xs = map iv ys \<Longrightarrow> map d xs = map d ys \<Longrightarrow>
     map d (merge_genes iv fit xs ys) = map d xs"
  by (induction iv fit xs ys rule: merge_genes.induct) auto

lemma getInnovation_gene_kind_deref:
  "(getInnovation s g, gene_kind s g)
     = (case deref s g of Inl n \<Rightarrow> (n_innovation n, NeuronKind (n_kind n))
                        | Inr y \<Rightarrow> (s_innovation y, SynapseKind))"
  by (simp add: getInnovation_deref gene_kind_def split: sum.splits)

lemma clone_returns:
  assumes "clone maxAlloc g s = Inr (c, s1)"
  shows "alloc_ok maxAlloc (length (sensors g)) (length (outputs g))"
    and "inherit_all (genes g) (empty_organism, s) = (c, s1)"
  using assms by (simp_all add: clone_unfold clone_loop_inherit_all split: if_splits)

lemma clone_facts:
  assumes "wf_genome g s" and "clone maxAlloc g s = Inr (c, s1)"
  shows "extends s s1"
    and "map (deref s1) (genes c) = map (deref s) (genes g)"
    and "\<forall>x \<in> set (genes c). gene_ok s1 x"
    and "sensors c = sensors g" and "outputs c = outputs g"
proof -
  let ?e = "empty_organism"
  have ok: "\<forall>x \<in> set (genes g). gene_ok s x" using assms(1) by (rule wf_genome_ok)
  have c: "inherit_all (genes g) (?e, s) = (c, s1)"
    using assms(2) by (rule clone_returns)
  have g0: "\<forall>x \<in> set (genes ?e). gene_ok s x" by (simp add: empty_organism_def)
  show "extends s s1" using inherit_all_extends [of s "genes g" ?e] c by simp
  show "map (deref s1) (genes c) = map (deref s) (genes g)"
    using inherit_all_deref [OF ok g0] c by (simp add: empty_organism_def)
  show "\<forall>x \<in> set (genes c). gene_ok s1 x"
    using inherit_all_deref [OF ok g0] c by simp
  show "sensors c = sensors g"
    using inherit_all_arity [OF ok, of ?e] c wf_genome_sensors [OF assms(1)]
    by (simp add: empty_organism_def)
  show "outputs c = outputs g"
    using inherit_all_arity [OF ok, of ?e] c wf_genome_outputs [OF assms(1)]
    by (simp add: empty_organism_def)
qed

section \<open>Crossover of a genome with its clone\<close>

text \<open>
  C7: for every genome \<open>g\<close> whose \<open>clone\<close> returns, \<open>mate(g, g.clone())\<close> returns an offspring whose
  (innovation number, gene kind) pairs are those of \<open>g\<close>, gene by gene and so as a
  set, and whose generation is \<open>g.generation + 1\<close>.
\<close>

theorem mate_clone_identity:
  assumes "wf_genome g s" and "clone maxAlloc g s = Inr (c, s1)"
  shows "\<exists>offspring s2. mate maxAlloc g c s1 = Inr (offspring, s2) \<and>
           map (\<lambda>x. (getInnovation s2 x, gene_kind s2 x)) (genes offspring)
             = map (\<lambda>x. (getInnovation s x, gene_kind s x)) (genes g) \<and>
           (\<lambda>x. (getInnovation s2 x, gene_kind s2 x)) ` set (genes offspring)
             = (\<lambda>x. (getInnovation s x, gene_kind s x)) ` set (genes g) \<and>
           generation offspring = generation g + 1"
proof -
  note cf = clone_facts [OF assms]
  let ?iv = "getInnovation s1"
  let ?ms = "merge_genes ?iv (fitness g > fitness c) (genes g) (genes c)"
  let ?off0 = "empty_organism
                     \<lparr>generation := generation g + 1\<rparr>"
  let ?r = "inherit_all ?ms (?off0, s1)"
  let ?sig = "\<lambda>c. case c of Inl n \<Rightarrow> (n_innovation n, NeuronKind (n_kind n))
                          | Inr y \<Rightarrow> (s_innovation y, SynapseKind)"
  have ok0: "\<forall>x \<in> set (genes g). gene_ok s x" using assms(1) by (rule wf_genome_ok)
  have okg: "\<forall>x \<in> set (genes g). gene_ok s1 x"
    using ok0 cf(1) by (auto intro: gene_ok_extends)
  have dg: "map (deref s1) (genes g) = map (deref s) (genes g)"
    using ok0 cf(1) by (simp add: deref_extends)
  have al: "alloc_ok maxAlloc (length (sensors g)) (length (outputs g))"
    using assms(2) by (rule clone_returns)
  have m: "mate maxAlloc g c s1 = Inr (fst ?r, snd ?r)"
    using mate_eq [OF okg cf(3) _ _ al] cf(4,5) by simp
  have dd: "map (deref s1) (genes g) = map (deref s1) (genes c)" by (simp only: dg cf(2))
  have "map ?iv (genes g) = map (\<lambda>x. case x of Inl n \<Rightarrow> n_innovation n | Inr y \<Rightarrow> s_innovation y)
                              (map (deref s1) (genes g))"
    by (simp add: getInnovation_deref)
  also have "\<dots> = map (\<lambda>x. case x of Inl n \<Rightarrow> n_innovation n | Inr y \<Rightarrow> s_innovation y)
                              (map (deref s1) (genes c))"
    by (simp only: dd)
  also have "\<dots> = map ?iv (genes c)" by (simp add: getInnovation_deref)
  finally have ivs: "map ?iv (genes g) = map ?iv (genes c)" .
  have dms: "map (deref s1) ?ms = map (deref s1) (genes g)"
    using ivs dd by (rule merge_genes_same)
  have ok: "\<forall>x \<in> set ?ms. gene_ok s1 x"
    using merge_genes_subset [of ?iv "fitness g > fitness c" "genes g" "genes c"] okg cf(3)
    by blast
  have g0: "\<forall>x \<in> set (genes ?off0). gene_ok s1 x" by (simp add: empty_organism_def)
  have d: "map (deref (snd ?r)) (genes (fst ?r)) = map (deref s) (genes g)"
    using inherit_all_deref [OF ok g0] dms dg by (simp add: empty_organism_def)
  have "map (\<lambda>x. (getInnovation (snd ?r) x, gene_kind (snd ?r) x)) (genes (fst ?r))
          = map ?sig (map (deref (snd ?r)) (genes (fst ?r)))"
    by (simp add: getInnovation_gene_kind_deref)
  also have "\<dots> = map ?sig (map (deref s) (genes g))" by (simp only: d)
  also have "\<dots> = map (\<lambda>x. (getInnovation s x, gene_kind s x)) (genes g)"
    by (simp add: getInnovation_gene_kind_deref)
  finally have sig: "map (\<lambda>x. (getInnovation (snd ?r) x, gene_kind (snd ?r) x)) (genes (fst ?r))
      = map (\<lambda>x. (getInnovation s x, gene_kind s x)) (genes g)" .
  then have "set (map (\<lambda>x. (getInnovation (snd ?r) x, gene_kind (snd ?r) x)) (genes (fst ?r)))
      = set (map (\<lambda>x. (getInnovation s x, gene_kind s x)) (genes g))"
    by (rule arg_cong)
  then have sigs: "(\<lambda>x. (getInnovation (snd ?r) x, gene_kind (snd ?r) x)) ` set (genes (fst ?r))
      = (\<lambda>x. (getInnovation s x, gene_kind s x)) ` set (genes g)"
    by (simp only: set_map)
  have gen: "generation (fst ?r) = generation g + 1"
    by (simp add: inherit_all_generation)
  from m sig sigs gen show ?thesis
    by (intro exI [of _ "fst ?r"] exI [of _ "snd ?r"]) simp
qed

theorem mate_clone_identity_witness:
  "\<exists>c s1 offspring s2. clone 1024 org_a state_ab = Inr (c, s1) \<and>
     mate 1024 org_a c s1 = Inr (offspring, s2) \<and>
     map (\<lambda>x. (getInnovation s2 x, gene_kind s2 x)) (genes offspring)
       = [(1, NeuronKind sensorNeuron), (2, NeuronKind outputNeuron), (3, SynapseKind)] \<and>
     generation offspring = 1"
proof -
  have "alloc_ok 1024 (length (sensors org_a)) (length (outputs org_a))"
    using alloc_ok_1_1 by (simp add: org_a_def)
  then obtain c s1 where c: "clone 1024 org_a state_ab = Inr (c, s1)"
    by (cases "clone_loop (genes org_a) (empty_organism, state_ab)") (simp add: clone_unfold)
  have sig: "map (\<lambda>x. (getInnovation state_ab x, gene_kind state_ab x)) (genes org_a)
      = [(1, NeuronKind sensorNeuron), (2, NeuronKind outputNeuron), (3, SynapseKind)]"
    by (simp add: org_a_def state_ab_def getInnovation_def gene_kind_def deref_def)
  have gen: "generation org_a + 1 = 1" by (simp add: org_a_def)
  from mate_clone_identity [OF wf_org_a c] obtain offspring s2 where
    "mate 1024 org_a c s1 = Inr (offspring, s2)"
    "map (\<lambda>x. (getInnovation s2 x, gene_kind s2 x)) (genes offspring)
       = [(1, NeuronKind sensorNeuron), (2, NeuronKind outputNeuron), (3, SynapseKind)]"
    "generation offspring = 1"
    by (simp only: sig gen) (elim exE conjE)
  with c show ?thesis by (intro exI conjI)
qed

section \<open>Two genomes with corresponding objects\<close>

lemma orel_neurons: "orel f h a b \<Longrightarrow> map_of (neurons b) k = map_option f (map_of (neurons a) k)"
  by (simp add: orel_def map_of_map)

lemma orel_getSynapse: "orel f h a b \<Longrightarrow> getSynapse b k = map_option h (getSynapse a k)"
  by (simp add: orel_def getSynapse_def map_of_map)

lemma orel_conns: "orel f h a b \<Longrightarrow> conns b k = conns a k"
  by (simp add: orel_def conns_def)

lemma nfoot_lookup: "map_of (neurons a) k = Some p \<Longrightarrow> p \<in> nfoot a"
  by (force simp: nfoot_def dest: map_of_SomeD)

lemma sfoot_lookup: "getSynapse a k = Some q \<Longrightarrow> q \<in> sfoot a"
  by (force simp: sfoot_def getSynapse_def dest: map_of_SomeD)

lemma srel_nheap: "srel f h a sa sb \<Longrightarrow> p \<in> nfoot a \<Longrightarrow> nheap sb (f p) = nheap sa p"
  by (simp add: srel_def)

lemma srel_sheap: "srel f h a sa sb \<Longrightarrow> q \<in> sfoot a \<Longrightarrow> sheap sb (h q) = sheap sa q"
  by (simp add: srel_def)

lemma srel_upd:
  assumes "srel f h a sa sb" and "p \<in> nfoot a"
  shows "srel f h a (upd_neuron p g sa) (upd_neuron (f p) g sb)"
proof -
  have inj: "inj_on f (nfoot a)" using assms(1) by (simp add: srel_def)
  have "\<And>p'. p' \<in> nfoot a \<Longrightarrow>
      nheap (upd_neuron (f p) g sb) (f p') = nheap (upd_neuron p g sa) p'"
  proof -
    fix p' assume p': "p' \<in> nfoot a"
    have "f p' = f p \<longleftrightarrow> p' = p" using inj p' assms(2) by (auto dest: inj_onD)
    then show "nheap (upd_neuron (f p) g sb) (f p') = nheap (upd_neuron p g sa) p'"
      using srel_nheap [OF assms(1) p'] srel_nheap [OF assms(1) assms(2)] by simp
  qed
  then show ?thesis using assms(1) by (simp add: srel_def)
qed

lemma clear_all_sim:
  "snd ` set al \<subseteq> nfoot a \<Longrightarrow> srel f h a sa sb \<Longrightarrow>
     srel f h a (clear_all al sa) (clear_all (map (\<lambda>(k, p). (k, f p)) al) sb)"
proof (induction al arbitrary: sa sb)
  case Nil
  then show ?case by simp
next
  case (Cons kp al)
  obtain k p where kp: "kp = (k, p)" by (cases kp)
  have p: "p \<in> nfoot a" using Cons.prems(1) kp by simp
  have "srel f h a (upd_neuron p clear_neuron sa) (upd_neuron (f p) clear_neuron sb)"
    using Cons.prems(2) p by (rule srel_upd)
  moreover have "snd ` set al \<subseteq> nfoot a" using Cons.prems(1) by simp
  ultimately show ?case using Cons.IH kp by simp
qed

lemma add_inputs_sim:
  "orel f h a b \<Longrightarrow> srel f h a sa sb \<Longrightarrow>
     rel_sum (=) (srel f h a) (add_inputs a kxs sa) (add_inputs b kxs sb)"
proof (induction kxs arbitrary: sa sb)
  case Nil
  then show ?case by simp
next
  case (Cons kx kxs)
  obtain k x where kx: "kx = (k, x)" by (cases kx)
  show ?case
  proof (cases "map_of (neurons a) k")
    case None
    then show ?thesis using Cons.prems(1) kx by (simp add: orel_neurons)
  next
    case (Some p)
    have "srel f h a (upd_neuron p (\<lambda>n. n\<lparr>n_sum := n_sum n + x\<rparr>) sa)
        (upd_neuron (f p) (\<lambda>n. n\<lparr>n_sum := n_sum n + x\<rparr>) sb)"
      using Cons.prems(2) nfoot_lookup [OF Some] by (rule srel_upd)
    from Cons.IH [OF Cons.prems(1) this] show ?thesis
      using Some Cons.prems(1) kx by (simp add: orel_neurons)
  qed
qed

lemma read_outputs_sim:
  "orel f h a b \<Longrightarrow> srel f h a sa sb \<Longrightarrow> read_outputs b ks sb = read_outputs a ks sa"
proof (induction ks)
  case Nil
  show ?case by simp
next
  case (Cons k ks)
  show ?case
  proof (cases "map_of (neurons a) k")
    case None
    then show ?thesis using Cons.prems(1) by (simp add: orel_neurons)
  next
    case (Some p)
    have "nheap sb (f p) = nheap sa p"
      using Cons.prems(2) nfoot_lookup [OF Some] by (rule srel_nheap)
    then show ?thesis using Some Cons by (simp add: orel_neurons split: sum.splits)
  qed
qed

lemma queue_ok_Nil [simp]: "queue_ok a []"
  by (simp add: queue_ok_def)

lemma queue_ok_snoc: "queue_ok a q \<Longrightarrow> t \<in> nfoot a \<Longrightarrow> queue_ok a (q @ [Some t])"
  by (auto simp: queue_ok_def)

lemma queue_ok_tl: "queue_ok a (x # q) \<Longrightarrow> queue_ok a q"
  by (simp add: queue_ok_def)

lemma queue_ok_hd: "queue_ok a (Some p # q) \<Longrightarrow> p \<in> nfoot a"
  by (simp add: queue_ok_def)

lemma fire_sim:
  assumes "orel f h a b" and "p \<in> nfoot a"
  shows "queue_ok a q \<Longrightarrow> srel f h a sa sb \<Longrightarrow>
     rel_sum (=) (qrel f h a) (fire a p ks (q, sa)) (fire b (f p) ks (map (map_option f) q, sb))"
proof (induction ks arbitrary: q sa sb)
  case Nil
  then show ?case by (simp add: qrel_def)
next
  case (Cons k ks)
  note sr = Cons.prems(2)
  show ?case
  proof (cases "getSynapse a k")
    case None
    then show ?thesis using assms(1) by (simp add: orel_getSynapse)
  next
    case (Some y)
    have yb: "getSynapse b k = Some (h y)" using Some assms(1) by (simp add: orel_getSynapse)
    have sy: "sheap sb (h y) = sheap sa y" using sr sfoot_lookup [OF Some] by (rule srel_sheap)
    have np: "nheap sb (f p) = nheap sa p" using sr assms(2) by (rule srel_nheap)
    show ?thesis
    proof (cases "s_enabled (sheap sa y)")
      case False
      with Some yb sy Cons.IH [OF Cons.prems] show ?thesis by simp
    next
      case en: True
      let ?sig = "n_value (nheap sa p) * s_weight (sheap sa y)"
      show ?thesis
      proof (cases "map_of (neurons a) (s_out (sheap sa y))")
        case None
        with Some yb sy en assms(1) show ?thesis by (simp add: orel_neurons)
      next
        case tg: (Some t)
        have tb: "map_of (neurons b) (s_out (sheap sa y)) = Some (f t)"
          using tg assms(1) by (simp add: orel_neurons)
        have tin: "t \<in> nfoot a" using tg by (rule nfoot_lookup)
        have nt: "nheap sb (f t) = nheap sa t" using sr tin by (rule srel_nheap)
        show ?thesis
        proof (cases "n_visited (nheap sa t)")
          case True
          have "srel f h a (upd_neuron t (\<lambda>n. n\<lparr>n_future := n_future n + ?sig\<rparr>) sa)
              (upd_neuron (f t) (\<lambda>n. n\<lparr>n_future := n_future n + ?sig\<rparr>) sb)"
            using sr tin by (rule srel_upd)
          from Cons.IH [OF Cons.prems(1) this] show ?thesis
            using Some yb sy np en tg tb nt True by simp
        next
          case nv: False
          let ?sa1 = "upd_neuron t (\<lambda>n. n\<lparr>n_sum := n_sum n + ?sig\<rparr>) sa"
          let ?sb1 = "upd_neuron (f t) (\<lambda>n. n\<lparr>n_sum := n_sum n + ?sig\<rparr>) sb"
          have s1: "srel f h a ?sa1 ?sb1" using sr tin by (rule srel_upd)
          show ?thesis
          proof (cases "n_seen (nheap sa t)")
            case True
            from Cons.IH [OF Cons.prems(1) s1] show ?thesis
              using Some yb sy np en tg tb nt nv True by (simp add: Let_def)
          next
            case False
            have s2: "srel f h a (upd_neuron t (\<lambda>n. n\<lparr>n_seen := True\<rparr>) ?sa1)
                (upd_neuron (f t) (\<lambda>n. n\<lparr>n_seen := True\<rparr>) ?sb1)"
              using s1 tin by (rule srel_upd)
            have q2: "queue_ok a (q @ [Some t])" using Cons.prems(1) tin by (rule queue_ok_snoc)
            from Cons.IH [OF q2 s2] show ?thesis
              using Some yb sy np en tg tb nt nv False by (simp add: Let_def)
          qed
        qed
      qed
    qed
  qed
qed

declare propagate_loop.simps [simp del]

lemma propagate_loop_sim:
  "orel f h a b \<Longrightarrow> queue_ok a q \<Longrightarrow> srel f h a sa sb \<Longrightarrow>
     rel_sum (=) (srel f h a) (propagate_loop cfg a q sa)
       (propagate_loop cfg b (map (map_option f) q) sb)"
proof (induction cfg a q sa arbitrary: sb rule: propagate_loop.induct)
  case (1 cfg org s)
  then show ?case by (simp add: propagate_loop.simps)
next
  case (2 cfg org q s)
  then show ?case by (simp add: propagate_loop.simps)
next
  case (3 cfg org p q s)
  note ob = "3.prems"(1)
  have pin: "p \<in> nfoot org" using "3.prems"(2) by (rule queue_ok_hd)
  have qok: "queue_ok org q" using "3.prems"(2) by (rule queue_ok_tl)
  have np: "nheap sb (f p) = nheap s p" using "3.prems"(3) pin by (rule srel_nheap)
  show ?case
  proof (cases "n_visited (nheap s p)")
    case True
    then show ?thesis using np by (simp add: propagate_loop.simps)
  next
    case nv: False
    let ?g = "\<lambda>n. n\<lparr>n_visited := True, n_value := actFunc cfg (n_sum n)\<rparr>"
    let ?s1 = "upd_neuron p ?g s"
    let ?sb1 = "upd_neuron (f p) ?g sb"
    have s1: "srel f h org ?s1 ?sb1" using "3.prems"(3) pin by (rule srel_upd)
    have fs: "rel_sum (=) (qrel f h org)
        (fire org p (conns org (n_id (nheap s p))) (q, ?s1))
        (fire b (f p) (conns org (n_id (nheap s p))) (map (map_option f) q, ?sb1))"
      using ob pin qok s1 by (rule fire_sim)
    show ?thesis
    proof (cases "fire org p (conns org (n_id (nheap s p))) (q, ?s1)")
      case (Inl e)
      with fs have "fire b (f p) (conns org (n_id (nheap s p))) (map (map_option f) q, ?sb1) = Inl e"
        by (cases "fire b (f p) (conns org (n_id (nheap s p))) (map (map_option f) q, ?sb1)") simp_all
      with Inl nv np show ?thesis
        by (simp add: propagate_loop.simps(3) orel_conns [OF ob])
    next
      case (Inr r)
      obtain q' s' where r: "r = (q', s')" by (cases r)
      from fs Inr obtain rb where
        fb: "fire b (f p) (conns org (n_id (nheap s p))) (map (map_option f) q, ?sb1) = Inr rb"
        and qr: "qrel f h org r rb"
        by (cases "fire b (f p) (conns org (n_id (nheap s p))) (map (map_option f) q, ?sb1)")
          simp_all
      obtain qb' sb' where rb: "rb = (qb', sb')" by (cases rb)
      have q1: "qb' = map (map_option f) q'" and q2: "queue_ok org q'"
        and q3: "srel f h org s' sb'"
        using qr r rb by (simp_all add: qrel_def)
      have ih: "rel_sum (=) (srel f h org) (propagate_loop cfg org q' s')
          (propagate_loop cfg b (map (map_option f) q') sb')"
      proof -
        have e2: "(q', s') = r" using r by simp
        show ?thesis by (rule "3.IH" [OF nv Inr e2 ob q2 q3])
      qed
      have lhs: "propagate_loop cfg org (Some p # q) s = propagate_loop cfg org q' s'"
        using nv Inr r by (simp add: propagate_loop.simps(3))
      have rhs: "propagate_loop cfg b (map (map_option f) (Some p # q)) sb
          = propagate_loop cfg b qb' sb'"
        using nv np fb rb by (simp add: propagate_loop.simps(3) orel_conns [OF ob])
      show ?thesis using ih by (simp only: lhs rhs q1)
    qed
  qed
qed

lemma sensors_queue_ok: "queue_ok a (map (\<lambda>k. map_of (neurons a) k) ks)"
  by (auto simp: queue_ok_def dest: nfoot_lookup [OF sym])

lemma propagate_sim:
  assumes "orel f h a b" and "srel f h a sa sb"
  shows "rel_sum (=) (srel f h a) (propagate cfg a sa) (propagate cfg b sb)"
proof -
  have "map (\<lambda>k. map_of (neurons b) k) (sensors b)
      = map (map_option f) (map (\<lambda>k. map_of (neurons a) k) (sensors a))"
    by (simp add: orel_neurons [OF assms(1)]) (simp add: assms(1) [unfolded orel_def])
  then show ?thesis
    using propagate_loop_sim [OF assms(1) sensors_queue_ok assms(2), where ks1 = "sensors a" and cfg = cfg]
    by (simp add: propagate_def)
qed

lemma nfoot_neurons: "snd ` set (neurons a) \<subseteq> nfoot a"
  by (simp add: nfoot_def)

lemma process_sim:
  assumes "orel f h a b" and "srel f h a sa sb"
  shows "rel_sum (=) (\<lambda>x y. fst y = fst x \<and> srel f h a (snd x) (snd y))
           (process cfg a input sa) (process cfg b input sb)"
proof (cases "length input \<noteq> length (sensors a)")
  case True
  then show ?thesis using assms(1) by (simp add: process_def orel_def)
next
  case False
  have sb: "sensors b = sensors a" "outputs b = outputs a"
    "neurons b = map (\<lambda>(k, p). (k, f p)) (neurons a)"
    using assms(1) by (simp_all add: orel_def)
  have c: "srel f h a (clear_all (neurons a) sa) (clear_all (neurons b) sb)"
    using clear_all_sim [OF nfoot_neurons assms(2)] by (simp add: sb)
  have ai: "rel_sum (=) (srel f h a)
      (add_inputs a (zip (sensors a) input) (clear_all (neurons a) sa))
      (add_inputs b (zip (sensors a) input) (clear_all (neurons b) sb))"
    using assms(1) c by (rule add_inputs_sim)
  show ?thesis
  proof (cases "add_inputs a (zip (sensors a) input) (clear_all (neurons a) sa)")
    case (Inl e)
    with ai have "add_inputs b (zip (sensors a) input) (clear_all (neurons b) sb) = Inl e"
      by (cases "add_inputs b (zip (sensors a) input) (clear_all (neurons b) sb)") simp_all
    with Inl False show ?thesis by (simp add: process_def sb(1))
  next
    case (Inr s2)
    from ai Inr obtain sb2 where
      b2: "add_inputs b (zip (sensors a) input) (clear_all (neurons b) sb) = Inr sb2"
      and r2: "srel f h a s2 sb2"
      by (cases "add_inputs b (zip (sensors a) input) (clear_all (neurons b) sb)") simp_all
    have pr: "rel_sum (=) (srel f h a) (propagate cfg a s2) (propagate cfg b sb2)"
      using assms(1) r2 by (rule propagate_sim)
    show ?thesis
    proof (cases "propagate cfg a s2")
      case (Inl e)
      with pr have "propagate cfg b sb2 = Inl e"
        by (cases "propagate cfg b sb2") simp_all
      with Inl Inr b2 False show ?thesis by (simp add: process_def sb(1))
    next
      case s3: (Inr s3)
      from pr s3 obtain sb3 where b3: "propagate cfg b sb2 = Inr sb3"
        and r3: "srel f h a s3 sb3"
        by (cases "propagate cfg b sb2") simp_all
      have ro: "read_outputs b (outputs a) sb3 = read_outputs a (outputs a) s3"
        using assms(1) r3 by (rule read_outputs_sim)
      show ?thesis using Inr b2 s3 b3 r3 ro False
        by (simp add: process_def sb(1,2) split: sum.splits)
    qed
  qed
qed

lemma process_seq_sim:
  "orel f h a b \<Longrightarrow> srel f h a sa sb \<Longrightarrow>
     outputs_of (process_seq cfg b ins sb) = outputs_of (process_seq cfg a ins sa)"
proof (induction ins arbitrary: sa sb)
  case Nil
  show ?case by (simp add: outputs_of_def)
next
  case (Cons i ins)
  have ps: "rel_sum (=) (\<lambda>x y. fst y = fst x \<and> srel f h a (snd x) (snd y))
           (process cfg a i sa) (process cfg b i sb)"
    using Cons.prems by (rule process_sim)
  show ?case
  proof (cases "process cfg a i sa")
    case (Inl e)
    with ps have "process cfg b i sb = Inl e" by (cases "process cfg b i sb") simp_all
    with Inl show ?thesis by (simp add: outputs_of_def)
  next
    case (Inr r)
    obtain out s1 where r: "r = (out, s1)" by (cases r)
    from ps Inr r obtain sb1 where pb: "process cfg b i sb = Inr (out, sb1)"
      and r1: "srel f h a s1 sb1"
      by (cases "process cfg b i sb") auto
    have "outputs_of (process_seq cfg b ins sb1) = outputs_of (process_seq cfg a ins s1)"
      using Cons.prems(1) r1 by (rule Cons.IH)
    then show ?thesis using Inr r pb
      by (auto simp: outputs_of_def split: sum.splits)
  qed
qed

section \<open>The clone corresponds to the original\<close>

lemma neurons_addNeuron:
  "neurons (addNeuron p s org) = AList.update (n_id (nheap s p)) p (neurons org)"
  by (simp add: addNeuron_def Let_def split: neuronKind.splits)

lemma synapses_addNeuron: "synapses (addNeuron p s org) = synapses org"
  by (simp add: addNeuron_def Let_def split: neuronKind.splits)

lemma connections_addNeuron: "connections (addNeuron p s org) = connections org"
  by (simp add: addNeuron_def Let_def split: neuronKind.splits)

lemma sensors_addNeuron:
  "sensors (addNeuron p s org)
     = sensors org @ (if n_kind (nheap s p) = sensorNeuron then [n_id (nheap s p)] else [])"
  by (simp add: addNeuron_def Let_def split: neuronKind.splits)

lemma outputs_addNeuron:
  "outputs (addNeuron p s org)
     = outputs org @ (if n_kind (nheap s p) = outputNeuron then [n_id (nheap s p)] else [])"
  by (simp add: addNeuron_def Let_def split: neuronKind.splits)

lemma fields_addSynapse:
  "neurons (addSynapse q s org) = neurons org"
  "sensors (addSynapse q s org) = sensors org"
  "outputs (addSynapse q s org) = outputs org"
  "synapses (addSynapse q s org) = AList.update (s_id (sheap s q)) q (synapses org)"
  "connections (addSynapse q s org)
     = AList.update (s_in (sheap s q)) (conns org (s_in (sheap s q)) @ [s_id (sheap s q)])
         (connections org)"
  by (simp_all add: addSynapse_def Let_def)

lemma update_set_subset: "set (AList.update k v al) \<subseteq> insert (k, v) (set al)"
  by (induction al) auto

lemma update_map_values:
  assumes "distinct (map fst al)" and "f' p = v"
    and "\<forall>(k', q) \<in> set al. k' \<noteq> k \<longrightarrow> f' q = f q"
  shows "AList.update k v (map (\<lambda>(k, p). (k, f p)) al)
           = map (\<lambda>(k, p). (k, f' p)) (AList.update k p al)"
  using assms
proof (induction al)
  case Nil
  then show ?case by simp
next
  case (Cons e al)
  obtain k1 q1 where e: "e = (k1, q1)" by (cases e)
  show ?case
  proof (cases "k1 = k")
    case True
    have "\<forall>(k', q) \<in> set al. k' \<noteq> k" using Cons.prems(1) e True by force
    then have "map (\<lambda>(k, p). (k, f p)) al = map (\<lambda>(k, p). (k, f' p)) al"
      using Cons.prems(3) by auto
    then show ?thesis using e True Cons.prems(2) by simp
  next
    case False
    have "AList.update k v (map (\<lambda>(k, p). (k, f p)) al)
           = map (\<lambda>(k, p). (k, f' p)) (AList.update k p al)"
      using Cons.IH Cons.prems by simp
    moreover have "f' q1 = f q1" using Cons.prems(3) e False by simp
    ultimately show ?thesis using e False by simp
  qed
qed

lemma distinct_keys_unique:
  "distinct (map fst al) \<Longrightarrow> (k, v) \<in> set al \<Longrightarrow> (k, v') \<in> set al \<Longrightarrow> v = v'"
  by (metis map_of_is_SomeI option.inject)

lemma keyed_empty [simp]: "keyed empty_organism s"
  by (simp add: keyed_def empty_organism_def)

lemma keyed_add_gene: "keyed org s \<Longrightarrow> keyed (add_gene g s org) s"
proof (cases g)
  case (NeuronGene p)
  assume k: "keyed org s"
  have "set (neurons (addNeuron p s org)) \<subseteq> insert (n_id (nheap s p), p) (set (neurons org))"
    by (simp add: neurons_addNeuron update_set_subset)
  then have "\<forall>(k, q) \<in> set (neurons (addNeuron p s org)). n_id (nheap s q) = k"
    using k by (auto simp: keyed_def)
  then show ?thesis using k NeuronGene
    by (simp add: keyed_def add_gene_def neurons_addNeuron synapses_addNeuron distinct_update)
next
  case (SynapseGene q)
  assume k: "keyed org s"
  have "set (synapses (addSynapse q s org)) \<subseteq> insert (s_id (sheap s q), q) (set (synapses org))"
    by (simp add: fields_addSynapse update_set_subset)
  then have "\<forall>(k, q') \<in> set (synapses (addSynapse q s org)). s_id (sheap s q') = k"
    using k by (auto simp: keyed_def)
  then show ?thesis using k SynapseGene
    by (simp add: keyed_def add_gene_def fields_addSynapse distinct_update)
qed

lemma keyed_replay: "keyed org s \<Longrightarrow> keyed (replay s gs org) s"
  by (induction gs arbitrary: org) (simp_all add: replay_Cons keyed_add_gene)

lemma clone_rel_neuron:
  assumes cr: "clone_rel s f h org c s0" and ok: "p < nnext s"
  shows "clone_rel s (f(p := nnext s0)) h (addNeuron p s org)
           (fst (inherit (NeuronGene p) (c, s0))) (snd (inherit (NeuronGene p) (c, s0)))"
proof -
  let ?s1 = "s0\<lparr>nheap := (nheap s0)(nnext s0 := nheap s0 p), nnext := Suc (nnext s0)\<rparr>"
  let ?f = "f(p := nnext s0)"
  let ?k = "n_id (nheap s p)"
  have ext: "extends s s0" and orl: "orel f h org c" and ky: "keyed org s"
    and nf: "\<forall>p \<in> nfoot org.
        p < nnext s \<and> nnext s \<le> f p \<and> f p < nnext s0 \<and> nheap s0 (f p) = nheap s p"
    and sf: "\<forall>q \<in> sfoot org.
        q < snext s \<and> snext s \<le> h q \<and> h q < snext s0 \<and> sheap s0 (h q) = sheap s q"
    using cr by (simp_all add: clone_rel_def)
  have inh: "inherit (NeuronGene p) (c, s0) = (addNeuron (nnext s0) ?s1 c, ?s1)"
    by (simp add: inherit_def alloc_neuron_def)
  have hp: "nheap s0 p = nheap s p" using ext ok by (simp add: extends_def)
  have h1: "nheap ?s1 (nnext s0) = nheap s p" using hp by simp
  have e1: "extends s ?s1" using ext by (auto simp: extends_def)
  have same: "\<forall>(k', q) \<in> set (neurons org). k' \<noteq> ?k \<longrightarrow> ?f q = f q"
    using ky by (auto simp: keyed_def)
  have nb: "neurons c = map (\<lambda>(k, p). (k, f p)) (neurons org)" using orl by (simp add: orel_def)
  have dk: "distinct (map fst (neurons org))" using ky by (simp add: keyed_def)
  have n1: "neurons (addNeuron (nnext s0) ?s1 c)
      = map (\<lambda>(k, p). (k, ?f p)) (neurons (addNeuron p s org))"
  proof -
    have fp: "?f p = nnext s0" by simp
    show ?thesis using update_map_values [OF dk fp same]
      by (simp add: neurons_addNeuron hp nb)
  qed
  have o1: "orel ?f h (addNeuron p s org) (addNeuron (nnext s0) ?s1 c)"
    using orl n1
    by (simp add: orel_def sensors_addNeuron outputs_addNeuron synapses_addNeuron
        connections_addNeuron hp)
  have k1: "keyed (addNeuron p s org) s"
    using keyed_add_gene [OF ky, of "NeuronGene p"] by (simp add: add_gene_def)
  have sub: "nfoot (addNeuron p s org) \<subseteq> insert p (nfoot org)"
    using update_set_subset [of ?k p "neurons org"]
    by (auto simp: nfoot_def neurons_addNeuron)
  have nf1: "\<forall>q \<in> nfoot (addNeuron p s org).
      q < nnext s \<and> nnext s \<le> ?f q \<and> ?f q < nnext ?s1 \<and> nheap ?s1 (?f q) = nheap s q"
  proof
    fix q assume "q \<in> nfoot (addNeuron p s org)"
    then have q: "q = p \<or> q \<in> nfoot org" using sub by auto
    show "q < nnext s \<and> nnext s \<le> ?f q \<and> ?f q < nnext ?s1 \<and> nheap ?s1 (?f q) = nheap s q"
    proof (cases "q = p")
      case True
      then show ?thesis using ok ext hp by (simp add: extends_def)
    next
      case False
      then have "q \<in> nfoot org" using q by simp
      then have "q < nnext s \<and> nnext s \<le> f q \<and> f q < nnext s0 \<and> nheap s0 (f q) = nheap s q"
        using nf by simp
      then show ?thesis using False by simp
    qed
  qed
  have sf1: "\<forall>q \<in> sfoot (addNeuron p s org).
      q < snext s \<and> snext s \<le> h q \<and> h q < snext ?s1 \<and> sheap ?s1 (h q) = sheap s q"
    using sf by (simp add: sfoot_def synapses_addNeuron)
  show ?thesis using e1 o1 k1 nf1 sf1 by (simp only: inh fst_conv snd_conv clone_rel_def)
qed

lemma clone_rel_synapse:
  assumes cr: "clone_rel s f h org c s0" and ok: "q < snext s"
  shows "clone_rel s f (h(q := snext s0)) (addSynapse q s org)
           (fst (inherit (SynapseGene q) (c, s0))) (snd (inherit (SynapseGene q) (c, s0)))"
proof -
  let ?s1 = "s0\<lparr>sheap := (sheap s0)(snext s0 := sheap s0 q), snext := Suc (snext s0)\<rparr>"
  let ?h = "h(q := snext s0)"
  let ?k = "s_id (sheap s q)"
  have ext: "extends s s0" and orl: "orel f h org c" and ky: "keyed org s"
    and nf: "\<forall>p \<in> nfoot org.
        p < nnext s \<and> nnext s \<le> f p \<and> f p < nnext s0 \<and> nheap s0 (f p) = nheap s p"
    and sf: "\<forall>q \<in> sfoot org.
        q < snext s \<and> snext s \<le> h q \<and> h q < snext s0 \<and> sheap s0 (h q) = sheap s q"
    using cr by (simp_all add: clone_rel_def)
  have inh: "inherit (SynapseGene q) (c, s0) = (addSynapse (snext s0) ?s1 c, ?s1)"
    by (simp add: inherit_def alloc_synapse_def)
  have hq: "sheap s0 q = sheap s q" using ext ok by (simp add: extends_def)
  have h1: "sheap ?s1 (snext s0) = sheap s q" using hq by simp
  have e1: "extends s ?s1" using ext by (auto simp: extends_def)
  have same: "\<forall>(k', q') \<in> set (synapses org). k' \<noteq> ?k \<longrightarrow> ?h q' = h q'"
    using ky by (auto simp: keyed_def)
  have sb: "synapses c = map (\<lambda>(k, q). (k, h q)) (synapses org)"
    using orl by (simp add: orel_def)
  have dk: "distinct (map fst (synapses org))" using ky by (simp add: keyed_def)
  have n1: "synapses (addSynapse (snext s0) ?s1 c)
      = map (\<lambda>(k, q). (k, ?h q)) (synapses (addSynapse q s org))"
  proof -
    have fq: "?h q = snext s0" by simp
    show ?thesis using update_map_values [OF dk fq same]
      by (simp add: fields_addSynapse hq sb)
  qed
  have cc: "conns c = conns org" using orel_conns [OF orl] by (simp add: fun_eq_iff)
  have o1: "orel f ?h (addSynapse q s org) (addSynapse (snext s0) ?s1 c)"
    using orl n1 by (simp add: orel_def fields_addSynapse hq cc)
  have k1: "keyed (addSynapse q s org) s"
    using keyed_add_gene [OF ky, of "SynapseGene q"] by (simp add: add_gene_def)
  have sub: "sfoot (addSynapse q s org) \<subseteq> insert q (sfoot org)"
    using update_set_subset [of ?k q "synapses org"]
    by (auto simp: sfoot_def fields_addSynapse)
  have sf1: "\<forall>q' \<in> sfoot (addSynapse q s org).
      q' < snext s \<and> snext s \<le> ?h q' \<and> ?h q' < snext ?s1 \<and> sheap ?s1 (?h q') = sheap s q'"
  proof
    fix q' assume "q' \<in> sfoot (addSynapse q s org)"
    then have q: "q' = q \<or> q' \<in> sfoot org" using sub by auto
    show "q' < snext s \<and> snext s \<le> ?h q' \<and> ?h q' < snext ?s1 \<and> sheap ?s1 (?h q') = sheap s q'"
    proof (cases "q' = q")
      case True
      then show ?thesis using ok ext hq by (simp add: extends_def)
    next
      case False
      then have "q' \<in> sfoot org" using q by simp
      then have "q' < snext s \<and> snext s \<le> h q' \<and> h q' < snext s0 \<and> sheap s0 (h q') = sheap s q'"
        using sf by simp
      then show ?thesis using False by simp
    qed
  qed
  have nf1: "\<forall>p \<in> nfoot (addSynapse q s org).
      p < nnext s \<and> nnext s \<le> f p \<and> f p < nnext ?s1 \<and> nheap ?s1 (f p) = nheap s p"
    using nf by (simp add: nfoot_def fields_addSynapse)
  show ?thesis using e1 o1 k1 nf1 sf1 by (simp only: inh fst_conv snd_conv clone_rel_def)
qed

lemma clone_rel_step:
  assumes "clone_rel s f h org c s0" and "gene_ok s g"
  shows "\<exists>f' h'. clone_rel s f' h' (add_gene g s org)
           (fst (inherit g (c, s0))) (snd (inherit g (c, s0)))"
proof (cases g)
  case (NeuronGene p)
  then have "p < nnext s" using assms(2) by (simp add: gene_ok_def)
  from clone_rel_neuron [OF assms(1) this] show ?thesis
    using NeuronGene by (auto simp: add_gene_def)
next
  case (SynapseGene q)
  then have "q < snext s" using assms(2) by (simp add: gene_ok_def)
  from clone_rel_synapse [OF assms(1) this] show ?thesis
    using SynapseGene by (auto simp: add_gene_def)
qed

lemma clone_rel_all:
  "clone_rel s f h org c s0 \<Longrightarrow> \<forall>g \<in> set gs. gene_ok s g \<Longrightarrow>
     \<exists>f' h'. clone_rel s f' h' (replay s gs org)
       (fst (inherit_all gs (c, s0))) (snd (inherit_all gs (c, s0)))"
proof (induction gs arbitrary: f h org c s0)
  case Nil
  then show ?case by auto
next
  case (Cons g gs)
  obtain c1 s1 where st: "inherit g (c, s0) = (c1, s1)" by (cases "inherit g (c, s0)")
  have "gene_ok s g" using Cons.prems(2) by simp
  from clone_rel_step [OF Cons.prems(1) this] st
  obtain f1 h1 where "clone_rel s f1 h1 (add_gene g s org) c1 s1" by auto
  moreover have "\<forall>g \<in> set gs. gene_ok s g" using Cons.prems(2) by simp
  ultimately show ?case using Cons.IH st by (simp add: replay_Cons)
qed

section \<open>What \<open>process\<close> writes\<close>

lemma frame_n_refl [simp]: "frame_n a s s"
  by (simp add: frame_n_def)

lemma frame_n_trans: "frame_n a s s' \<Longrightarrow> frame_n a s' s'' \<Longrightarrow> frame_n a s s''"
  by (simp add: frame_n_def)

lemma frame_n_upd: "p \<in> nfoot a \<Longrightarrow> frame_n a s (upd_neuron p g s)"
  by (auto simp: frame_n_def upd_neuron_def)

lemma frame_n_upd_trans:
  "p \<in> nfoot a \<Longrightarrow> frame_n a (upd_neuron p g s) s' \<Longrightarrow> frame_n a s s'"
  using frame_n_trans [OF frame_n_upd] by blast

lemma clear_all_frame: "snd ` set al \<subseteq> nfoot a \<Longrightarrow> frame_n a s (clear_all al s)"
proof (induction al arbitrary: s)
  case Nil
  show ?case by simp
next
  case (Cons kp al)
  obtain k p where kp: "kp = (k, p)" by (cases kp)
  have p: "p \<in> nfoot a" using Cons.prems kp by simp
  have "frame_n a (upd_neuron p clear_neuron s) (clear_all al (upd_neuron p clear_neuron s))"
    using Cons.prems by (intro Cons.IH) simp
  with p show ?case using kp by (simp add: frame_n_upd_trans)
qed

lemma add_inputs_frame: "add_inputs a kxs s = Inr s' \<Longrightarrow> frame_n a s s'"
proof (induction kxs arbitrary: s)
  case Nil
  then show ?case by simp
next
  case (Cons kx kxs)
  obtain k x where kx: "kx = (k, x)" by (cases kx)
  from Cons.prems kx obtain p where p: "map_of (neurons a) k = Some p"
    and r: "add_inputs a kxs (upd_neuron p (\<lambda>n. n\<lparr>n_sum := n_sum n + x\<rparr>) s) = Inr s'"
    by (auto split: option.splits)
  from Cons.IH [OF r] nfoot_lookup [OF p] show ?case by (rule frame_n_upd_trans [rotated])
qed

lemma fire_frame: "fire a p ks (q, s) = Inr (q', s') \<Longrightarrow> frame_n a s s'"
proof (induction ks arbitrary: q s)
  case Nil
  then show ?case by simp
next
  case (Cons k ks)
  from Cons.prems obtain y where y: "getSynapse a k = Some y"
    by (auto split: option.splits)
  show ?case
  proof (cases "s_enabled (sheap s y)")
    case False
    with Cons.prems y have "fire a p ks (q, s) = Inr (q', s')" by simp
    then show ?thesis by (rule Cons.IH)
  next
    case en: True
    let ?sig = "n_value (nheap s p) * s_weight (sheap s y)"
    from Cons.prems y en obtain t where t: "map_of (neurons a) (s_out (sheap s y)) = Some t"
      by (cases "map_of (neurons a) (s_out (sheap s y))") (simp_all add: Let_def)
    have tin: "t \<in> nfoot a" using t by (rule nfoot_lookup)
    show ?thesis
    proof (cases "n_visited (nheap s t)")
      case True
      with Cons.prems y en t
      have "fire a p ks (q, upd_neuron t (\<lambda>n. n\<lparr>n_future := n_future n + ?sig\<rparr>) s)
          = Inr (q', s')" by simp
      from Cons.IH [OF this] tin show ?thesis by (rule frame_n_upd_trans [rotated])
    next
      case nv: False
      let ?s1 = "upd_neuron t (\<lambda>n. n\<lparr>n_sum := n_sum n + ?sig\<rparr>) s"
      have seen1: "n_seen (nheap ?s1 t) = n_seen (nheap s t)" by simp
      show ?thesis
      proof (cases "n_seen (nheap s t)")
        case True
        with Cons.prems y en t nv seen1 have "fire a p ks (q, ?s1) = Inr (q', s')"
          by (simp add: Let_def)
        from Cons.IH [OF this] tin show ?thesis by (rule frame_n_upd_trans [rotated])
      next
        case False
        with Cons.prems y en t nv seen1
        have "fire a p ks (q @ [Some t], upd_neuron t (\<lambda>n. n\<lparr>n_seen := True\<rparr>) ?s1)
            = Inr (q', s')" by (simp add: Let_def)
        from Cons.IH [OF this] have "frame_n a (upd_neuron t (\<lambda>n. n\<lparr>n_seen := True\<rparr>) ?s1) s'" .
        with tin have "frame_n a ?s1 s'" by (rule frame_n_upd_trans)
        with tin show ?thesis by (rule frame_n_upd_trans)
      qed
    qed
  qed
qed

lemma fire_queue_ok:
  "fire a p ks (q, s) = Inr (q', s') \<Longrightarrow> queue_ok a q \<Longrightarrow> queue_ok a q'"
proof (induction ks arbitrary: q s)
  case Nil
  then show ?case by simp
next
  case (Cons k ks)
  from Cons.prems obtain y where y: "getSynapse a k = Some y"
    by (auto split: option.splits)
  show ?case
  proof (cases "s_enabled (sheap s y)")
    case False
    with Cons.prems y have "fire a p ks (q, s) = Inr (q', s')" by simp
    then show ?thesis using Cons.prems(2) by (rule Cons.IH)
  next
    case en: True
    let ?sig = "n_value (nheap s p) * s_weight (sheap s y)"
    from Cons.prems y en obtain t where t: "map_of (neurons a) (s_out (sheap s y)) = Some t"
      by (cases "map_of (neurons a) (s_out (sheap s y))") (simp_all add: Let_def)
    have tin: "t \<in> nfoot a" using t by (rule nfoot_lookup)
    show ?thesis
    proof (cases "n_visited (nheap s t)")
      case True
      with Cons.prems y en t
      have "fire a p ks (q, upd_neuron t (\<lambda>n. n\<lparr>n_future := n_future n + ?sig\<rparr>) s)
          = Inr (q', s')" by simp
      then show ?thesis using Cons.prems(2) by (rule Cons.IH)
    next
      case nv: False
      let ?s1 = "upd_neuron t (\<lambda>n. n\<lparr>n_sum := n_sum n + ?sig\<rparr>) s"
      have seen1: "n_seen (nheap ?s1 t) = n_seen (nheap s t)" by simp
      show ?thesis
      proof (cases "n_seen (nheap s t)")
        case True
        with Cons.prems y en t nv seen1 have "fire a p ks (q, ?s1) = Inr (q', s')"
          by (simp add: Let_def)
        then show ?thesis using Cons.prems(2) by (rule Cons.IH)
      next
        case False
        with Cons.prems y en t nv seen1
        have "fire a p ks (q @ [Some t], upd_neuron t (\<lambda>n. n\<lparr>n_seen := True\<rparr>) ?s1)
            = Inr (q', s')" by (simp add: Let_def)
        then show ?thesis using queue_ok_snoc [OF Cons.prems(2) tin] by (rule Cons.IH)
      qed
    qed
  qed
qed

lemma propagate_loop_frame:
  "propagate_loop cfg a q s = Inr s' \<Longrightarrow> queue_ok a q \<Longrightarrow> frame_n a s s'"
proof (induction cfg a q s rule: propagate_loop.induct)
  case (1 cfg org s)
  then show ?case by (simp add: propagate_loop.simps)
next
  case (2 cfg org q s)
  then show ?case by (simp add: propagate_loop.simps)
next
  case (3 cfg org p q s)
  let ?g = "\<lambda>n. n\<lparr>n_visited := True, n_value := actFunc cfg (n_sum n)\<rparr>"
  let ?s1 = "upd_neuron p ?g s"
  have pin: "p \<in> nfoot org" using "3.prems"(2) by (rule queue_ok_hd)
  have qok: "queue_ok org q" using "3.prems"(2) by (rule queue_ok_tl)
  have nv: "\<not> n_visited (nheap s p)"
    using "3.prems"(1) by (auto simp: propagate_loop.simps(3) split: if_splits)
  from "3.prems"(1) nv obtain r where
    f: "fire org p (conns org (n_id (nheap s p))) (q, ?s1) = Inr r"
    by (auto simp: propagate_loop.simps(3) split: sum.splits)
  obtain q' s1' where r: "r = (q', s1')" by (cases r)
  have e2: "(q', s1') = r" using r by simp
  have pl: "propagate_loop cfg org q' s1' = Inr s'"
    using "3.prems"(1) nv f r by (simp add: propagate_loop.simps(3))
  have f': "fire org p (conns org (n_id (nheap s p))) (q, ?s1) = Inr (q', s1')"
    using f r by simp
  have q'ok: "queue_ok org q'" using f' qok by (rule fire_queue_ok)
  have "frame_n org s1' s'" by (rule "3.IH" [OF nv f e2 pl q'ok])
  moreover have "frame_n org ?s1 s1'" using f' by (rule fire_frame)
  ultimately have "frame_n org ?s1 s'" by (rule frame_n_trans [rotated])
  with pin show ?case by (rule frame_n_upd_trans)
qed

lemma process_frame:
  assumes "process cfg a input s = Inr (out, s')"
  shows "frame_n a s s'"
proof -
  from assms obtain s2 where
    ai: "add_inputs a (zip (sensors a) input) (clear_all (neurons a) s) = Inr s2"
    and pr: "propagate cfg a s2 = Inr s'"
    by (auto simp: process_def split: if_splits sum.splits)
  have "frame_n a s (clear_all (neurons a) s)" using nfoot_neurons by (rule clear_all_frame)
  moreover have "frame_n a (clear_all (neurons a) s) s2" using ai by (rule add_inputs_frame)
  moreover have "frame_n a s2 s'"
    using pr sensors_queue_ok unfolding propagate_def by (rule propagate_loop_frame)
  ultimately show ?thesis by (blast intro: frame_n_trans)
qed

lemma wf_genome_fields:
  assumes "wf_genome g s"
  shows "sensors g = sensors (replay s (genes g) empty_organism)"
    and "outputs g = outputs (replay s (genes g) empty_organism)"
    and "neurons g = neurons (replay s (genes g) empty_organism)"
    and "synapses g = synapses (replay s (genes g) empty_organism)"
    and "connections g = connections (replay s (genes g) empty_organism)"
proof -
  let ?r = "replay s (genes g) empty_organism"
  have e: "g = ?r\<lparr>generation := generation g, fitness := fitness g\<rparr>"
    using assms by (simp add: wf_genome_def)
  have "sensors (?r\<lparr>generation := generation g, fitness := fitness g\<rparr>) = sensors ?r"
    "outputs (?r\<lparr>generation := generation g, fitness := fitness g\<rparr>) = outputs ?r"
    "neurons (?r\<lparr>generation := generation g, fitness := fitness g\<rparr>) = neurons ?r"
    "synapses (?r\<lparr>generation := generation g, fitness := fitness g\<rparr>) = synapses ?r"
    "connections (?r\<lparr>generation := generation g, fitness := fitness g\<rparr>) = connections ?r"
    by simp_all
  then show "sensors g = sensors ?r" and "outputs g = outputs ?r" and "neurons g = neurons ?r"
    and "synapses g = synapses ?r" and "connections g = connections ?r"
    using e by metis+
qed

lemma wf_genome_keyed: "wf_genome g s \<Longrightarrow> keyed g s"
  using keyed_replay [OF keyed_empty, of s "genes g"]
  by (simp add: keyed_def wf_genome_fields)

text \<open>
  The clone is the original with every object renamed to a fresh copy of the same
  contents.
\<close>

lemma clone_sim:
  assumes "wf_genome g s" and "clone maxAlloc g s = Inr (c, s1)"
  shows "\<exists>f h. orel f h g c \<and> srel f h g s1 s1 \<and>
           (\<forall>p \<in> nfoot g. p < nnext s \<and> nnext s \<le> f p) \<and>
           (\<forall>q \<in> sfoot g. q < snext s \<and> snext s \<le> h q)"
proof -
  let ?e = "empty_organism"
  let ?r = "replay s (genes g) empty_organism"
  have ok: "\<forall>x \<in> set (genes g). gene_ok s x" using assms(1) by (rule wf_genome_ok)
  have c: "inherit_all (genes g) (?e, s) = (c, s1)"
    using assms(2) by (rule clone_returns)
  have e0: "?e = empty_organism" by (simp add: empty_organism_def)
  have "clone_rel s id id empty_organism ?e s"
    by (simp add: clone_rel_def orel_def nfoot_def sfoot_def empty_organism_def keyed_def)
  from clone_rel_all [OF this ok] c obtain f h where cr: "clone_rel s f h ?r c s1"
    by auto
  note wf = wf_genome_fields [OF assms(1)]
  have orl: "orel f h g c" using cr by (simp add: clone_rel_def orel_def wf)
  have nf: "nfoot g = nfoot ?r" and sf: "sfoot g = sfoot ?r"
    by (simp_all add: nfoot_def sfoot_def wf)
  have ext: "extends s s1" using cr by (simp add: clone_rel_def)
  have ky: "keyed g s" using assms(1) by (rule wf_genome_keyed)
  have np: "\<forall>p \<in> nfoot g.
        p < nnext s \<and> nnext s \<le> f p \<and> f p < nnext s1 \<and> nheap s1 (f p) = nheap s p"
    using cr by (simp add: clone_rel_def nf)
  have sp: "\<forall>q \<in> sfoot g.
        q < snext s \<and> snext s \<le> h q \<and> h q < snext s1 \<and> sheap s1 (h q) = sheap s q"
    using cr by (simp add: clone_rel_def sf)
  have inj: "inj_on f (nfoot g)"
  proof (rule inj_onI)
    fix p1 p2 assume p1: "p1 \<in> nfoot g" and p2: "p2 \<in> nfoot g" and eq: "f p1 = f p2"
    from p1 obtain k1 where k1: "(k1, p1) \<in> set (neurons g)" by (auto simp: nfoot_def)
    from p2 obtain k2 where k2: "(k2, p2) \<in> set (neurons g)" by (auto simp: nfoot_def)
    have "nheap s p1 = nheap s p2" using np p1 p2 eq by metis
    moreover have "n_id (nheap s p1) = k1" "n_id (nheap s p2) = k2"
      using ky k1 k2 by (auto simp: keyed_def)
    ultimately have "k1 = k2" by simp
    moreover have "distinct (map fst (neurons g))" using ky by (simp add: keyed_def)
    ultimately show "p1 = p2" using k1 k2 by (auto dest: distinct_keys_unique)
  qed
  have "\<forall>p \<in> nfoot g. nheap s1 (f p) = nheap s1 p"
    using np ext by (simp add: extends_def)
  moreover have "\<forall>q \<in> sfoot g. sheap s1 (h q) = sheap s1 q"
    using sp ext by (simp add: extends_def)
  ultimately have "srel f h g s1 s1" using inj by (simp add: srel_def)
  with orl np sp show ?thesis by blast
qed

lemma orel_id: "orel id id g g"
  by (simp add: orel_def)

lemma orel_nfoot: "orel f h a b \<Longrightarrow> nfoot b = f ` nfoot a"
  by (force simp: orel_def nfoot_def)

lemma orel_sfoot: "orel f h a b \<Longrightarrow> sfoot b = h ` sfoot a"
  by (force simp: orel_def sfoot_def)

text \<open>States that agree on the objects of \<open>g\<close> give \<open>g\<close> the same outputs.\<close>

lemma process_seq_agree:
  assumes "\<forall>p \<in> nfoot g. nheap s' p = nheap s p" and "\<forall>q \<in> sfoot g. sheap s' q = sheap s q"
  shows "outputs_of (process_seq cfg g ins s') = outputs_of (process_seq cfg g ins s)"
proof -
  have "srel id id g s s'" using assms by (simp add: srel_def)
  with orel_id show ?thesis by (rule process_seq_sim)
qed

lemma process_both_sim:
  assumes orl: "orel f h g c" and dj: "nfoot g \<inter> nfoot c = {}"
  shows "srel f h g s s \<Longrightarrow> process_both cfg g c ins s = Inr (outs, s') \<Longrightarrow>
           map snd outs = map fst outs"
proof (induction ins arbitrary: s outs)
  case Nil
  then show ?case by simp
next
  case (Cons i ins)
  from Cons.prems(2) obtain outa s1 outb s2 outs1 where
    pa: "process cfg g i s = Inr (outa, s1)" and pb: "process cfg c i s1 = Inr (outb, s2)"
    and pr: "process_both cfg g c ins s2 = Inr (outs1, s')" and o: "outs = (outa, outb) # outs1"
    by (auto split: sum.splits)
  have fa: "frame_n g s s1" using pa by (rule process_frame)
  have fb: "frame_n c s1 s2" using pb by (rule process_frame)
  have nc: "nfoot c = f ` nfoot g" using orl by (rule orel_nfoot)
  have inj: "inj_on f (nfoot g)" using Cons.prems(1) by (simp add: srel_def)
  have r1: "srel f h g s s1"
  proof -
    have "\<forall>p \<in> nfoot g. nheap s1 (f p) = nheap s p"
    proof
      fix p assume p: "p \<in> nfoot g"
      then have "f p \<notin> nfoot g" using dj nc by auto
      then have "nheap s1 (f p) = nheap s (f p)" using fa by (simp add: frame_n_def)
      then show "nheap s1 (f p) = nheap s p" using Cons.prems(1) p by (simp add: srel_def)
    qed
    moreover have "\<forall>q \<in> sfoot g. sheap s1 (h q) = sheap s q"
      using fa Cons.prems(1) by (simp add: frame_n_def srel_def)
    ultimately show ?thesis using inj by (simp add: srel_def)
  qed
  have ps: "rel_sum (=) (\<lambda>x y. fst y = fst x \<and> srel f h g (snd x) (snd y))
           (process cfg g i s) (process cfg c i s1)"
    using orl r1 by (rule process_sim)
  have eq: "outb = outa" and r2: "srel f h g s1 s2" using ps pa pb by simp_all
  have r3: "srel f h g s2 s2"
  proof -
    have "\<forall>p \<in> nfoot g. nheap s2 (f p) = nheap s2 p"
    proof
      fix p assume p: "p \<in> nfoot g"
      then have "p \<notin> nfoot c" using dj by auto
      then have "nheap s2 p = nheap s1 p" using fb by (simp add: frame_n_def)
      then show "nheap s2 (f p) = nheap s2 p" using r2 p by (simp add: srel_def)
    qed
    moreover have "\<forall>q \<in> sfoot g. sheap s2 (h q) = sheap s2 q"
      using fb r2 by (simp add: frame_n_def srel_def)
    ultimately show ?thesis using inj by (simp add: srel_def)
  qed
  from Cons.IH [OF r3 pr] eq o show ?case by simp
qed

section \<open>Clone independence\<close>

text \<open>
  C8: for every genome \<open>g\<close> whose \<open>clone\<close> returns \<open>c\<close>: driven by the same input sequence, \<open>c\<close>
  gives the outputs of \<open>g\<close> (or stops with the same error), also when each input is
  processed by \<open>g\<close> and then by \<open>c\<close>; \<open>g\<close> and \<open>c\<close> have no neuron and no synapse
  object in common; and resampling a weight or toggling a synapse of \<open>c\<close>, in any
  state, leaves the outputs of \<open>g\<close> on every later input sequence as they were.
\<close>

theorem clone_independence:
  assumes "wf_genome g s" and "clone maxAlloc g s = Inr (c, s1)"
  shows "outputs_of (process_seq cfg c ins s1) = outputs_of (process_seq cfg g ins s1) \<and>
         (\<forall>outs s2. process_both cfg g c ins s1 = Inr (outs, s2) \<longrightarrow>
            map snd outs = map fst outs) \<and>
         nfoot g \<inter> nfoot c = {} \<and> sfoot g \<inter> sfoot c = {} \<and>
         (\<forall>t t' k r. mutateWeight cfg r c k t = Inr t' \<longrightarrow>
            outputs_of (process_seq cfg g ins t') = outputs_of (process_seq cfg g ins t)) \<and>
         (\<forall>t t' k. toggleEnabled c k t = Inr t' \<longrightarrow>
            outputs_of (process_seq cfg g ins t') = outputs_of (process_seq cfg g ins t))"
proof -
  from clone_sim [OF assms] obtain f h where orl: "orel f h g c" and sr: "srel f h g s1 s1"
    and np: "\<forall>p \<in> nfoot g. p < nnext s \<and> nnext s \<le> f p"
    and sp: "\<forall>q \<in> sfoot g. q < snext s \<and> snext s \<le> h q"
    by blast
  have nc: "nfoot c = f ` nfoot g" using orl by (rule orel_nfoot)
  have sc: "sfoot c = h ` sfoot g" using orl by (rule orel_sfoot)
  have dn: "nfoot g \<inter> nfoot c = {}"
  proof (rule ccontr)
    assume "nfoot g \<inter> nfoot c \<noteq> {}"
    then obtain x where x: "x \<in> nfoot g" and "x \<in> nfoot c" by auto
    then obtain p where p: "p \<in> nfoot g" and xp: "x = f p" using nc by auto
    have "x < nnext s" using np x by simp
    moreover have "nnext s \<le> f p" using np p by simp
    ultimately show False using xp by simp
  qed
  have ds: "sfoot g \<inter> sfoot c = {}"
  proof (rule ccontr)
    assume "sfoot g \<inter> sfoot c \<noteq> {}"
    then obtain x where x: "x \<in> sfoot g" and "x \<in> sfoot c" by auto
    then obtain q where q: "q \<in> sfoot g" and xq: "x = h q" using sc by auto
    have "x < snext s" using sp x by simp
    moreover have "snext s \<le> h q" using sp q by simp
    ultimately show False using xq by simp
  qed
  have p1: "outputs_of (process_seq cfg c ins s1) = outputs_of (process_seq cfg g ins s1)"
    using orl sr by (rule process_seq_sim)
  have p2: "\<forall>outs s2. process_both cfg g c ins s1 = Inr (outs, s2) \<longrightarrow>
            map snd outs = map fst outs"
    using process_both_sim [OF orl dn sr] by blast
  have other: "\<And>k v. map_of (synapses c) k = Some v \<Longrightarrow> v \<notin> sfoot g"
  proof -
    fix k v assume "map_of (synapses c) k = Some v"
    then have "v \<in> sfoot c" by (force simp: sfoot_def dest: map_of_SomeD)
    then show "v \<notin> sfoot g" using ds by auto
  qed
  have p3: "\<forall>t t' k r. mutateWeight cfg r c k t = Inr t' \<longrightarrow>
            outputs_of (process_seq cfg g ins t') = outputs_of (process_seq cfg g ins t)"
  proof (intro allI impI)
    fix t t' k r assume m: "mutateWeight cfg r c k t = Inr t'"
    then obtain v where v: "map_of (synapses c) k = Some v"
      and t': "t' = synapse_mutateWeight cfg r v t"
      by (auto simp: mutateWeight_def split: option.splits)
    have "\<forall>p \<in> nfoot g. nheap t' p = nheap t p" by (simp add: t' synapse_mutateWeight_def)
    moreover have "\<forall>q \<in> sfoot g. sheap t' q = sheap t q"
      using other [OF v] by (auto simp: t' synapse_mutateWeight_def)
    ultimately show "outputs_of (process_seq cfg g ins t') = outputs_of (process_seq cfg g ins t)"
      by (rule process_seq_agree)
  qed
  have p4: "\<forall>t t' k. toggleEnabled c k t = Inr t' \<longrightarrow>
            outputs_of (process_seq cfg g ins t') = outputs_of (process_seq cfg g ins t)"
  proof (intro allI impI)
    fix t t' k assume m: "toggleEnabled c k t = Inr t'"
    then obtain v where v: "map_of (synapses c) k = Some v"
      and t': "t' = synapse_toggleEnabled v t"
      by (auto simp: toggleEnabled_def split: option.splits)
    have "\<forall>p \<in> nfoot g. nheap t' p = nheap t p" by (simp add: t' synapse_toggleEnabled_def)
    moreover have "\<forall>q \<in> sfoot g. sheap t' q = sheap t q"
      using other [OF v] by (auto simp: t' synapse_toggleEnabled_def)
    ultimately show "outputs_of (process_seq cfg g ins t') = outputs_of (process_seq cfg g ins t)"
      by (rule process_seq_agree)
  qed
  from p1 p2 dn ds p3 p4 show ?thesis by blast
qed

lemma clone_org_a: "clone 1024 org_a state_ab = Inr (org_c, state_c)"
  using alloc_ok_1_1
  by (simp add: clone_unfold synapse_clone_def neuron_clone_def org_a_def org_c_def state_ab_def
      state_c_def build_defs)

lemma process_both_org_a_c:
  "map_sum id fst (process_both testConfig org_a org_c [[1], [2]] state_c)
     = Inr [([1], [1]), ([2], [2])]"
  by (simp add: org_a_def org_c_def state_ab_def state_c_def run_defs conns_def
      propagate_loop.simps)

theorem clone_independence_witness:
  "clone 1024 org_a state_ab = Inr (org_c, state_c) \<and>
   outputs_of (process_seq testConfig org_c [[1], [2]] state_c) = Inr [[1], [2]] \<and>
   (\<exists>outs s2. process_both testConfig org_a org_c [[1], [2]] state_c = Inr (outs, s2) \<and>
      map snd outs = map fst outs) \<and>
   nfoot org_a \<inter> nfoot org_c = {} \<and> sfoot org_a \<inter> sfoot org_c = {} \<and>
   (\<exists>t'. mutateWeight testConfig (1 / 4) org_c 3 state_c = Inr t' \<and>
      outputs_of (process_seq testConfig org_a [[1], [2]] t') = Inr [[1], [2]]) \<and>
   (\<exists>t'. toggleEnabled org_c 3 state_c = Inr t' \<and>
      outputs_of (process_seq testConfig org_a [[1], [2]] t') = Inr [[1], [2]])"
proof -
  note c = clone_org_a
  note ci = clone_independence [OF wf_org_a c, of testConfig "[[1], [2]]"]
  have og: "outputs_of (process_seq testConfig org_a [[1], [2]] state_c) = Inr [[1], [2]]"
    by (simp add: outputs_of_def org_a_def state_ab_def state_c_def run_defs conns_def
        propagate_loop.simps)
  have m: "mutateWeight testConfig (1 / 4) org_c 3 state_c
      = Inr (synapse_mutateWeight testConfig (1 / 4) 2 state_c)"
    by (simp add: mutateWeight_def org_c_def)
  have t: "toggleEnabled org_c 3 state_c = Inr (synapse_toggleEnabled 2 state_c)"
    by (simp add: toggleEnabled_def org_c_def)
  obtain outs s2 where pb: "process_both testConfig org_a org_c [[1], [2]] state_c = Inr (outs, s2)"
    using process_both_org_a_c
    by (cases "process_both testConfig org_a org_c [[1], [2]] state_c") auto
  from ci have c1: "outputs_of (process_seq testConfig org_c [[1], [2]] state_c)
      = outputs_of (process_seq testConfig org_a [[1], [2]] state_c)"
    and c2: "\<forall>outs s2. process_both testConfig org_a org_c [[1], [2]] state_c = Inr (outs, s2) \<longrightarrow>
        map snd outs = map fst outs"
    and c3: "nfoot org_a \<inter> nfoot org_c = {}" and c4: "sfoot org_a \<inter> sfoot org_c = {}"
    and c5: "\<forall>t t' k r. mutateWeight testConfig r org_c k t = Inr t' \<longrightarrow>
        outputs_of (process_seq testConfig org_a [[1], [2]] t')
          = outputs_of (process_seq testConfig org_a [[1], [2]] t)"
    and c6: "\<forall>t t' k. toggleEnabled org_c k t = Inr t' \<longrightarrow>
        outputs_of (process_seq testConfig org_a [[1], [2]] t')
          = outputs_of (process_seq testConfig org_a [[1], [2]] t)"
    by simp_all
  have w1: "outputs_of (process_seq testConfig org_c [[1], [2]] state_c) = Inr [[1], [2]]"
    using c1 og by simp
  have w2: "map snd outs = map fst outs" using c2 pb by blast
  have w5: "outputs_of (process_seq testConfig org_a [[1], [2]]
      (synapse_mutateWeight testConfig (1 / 4) 2 state_c)) = Inr [[1], [2]]"
    using c5 [rule_format, OF m] og by simp
  have w6: "outputs_of (process_seq testConfig org_a [[1], [2]] (synapse_toggleEnabled 2 state_c))
      = Inr [[1], [2]]"
    using c6 [rule_format, OF t] og by simp
  show ?thesis
  proof (intro exI conjI)
    show "clone 1024 org_a state_ab = Inr (org_c, state_c)" by (rule c)
    show "outputs_of (process_seq testConfig org_c [[1], [2]] state_c) = Inr [[1], [2]]"
      by (rule w1)
    show "process_both testConfig org_a org_c [[1], [2]] state_c = Inr (outs, s2)" by (rule pb)
    show "map snd outs = map fst outs" by (rule w2)
    show "nfoot org_a \<inter> nfoot org_c = {}" by (rule c3)
    show "sfoot org_a \<inter> sfoot org_c = {}" by (rule c4)
    show "mutateWeight testConfig (1 / 4) org_c 3 state_c
        = Inr (synapse_mutateWeight testConfig (1 / 4) 2 state_c)" by (rule m)
    show "outputs_of (process_seq testConfig org_a [[1], [2]]
        (synapse_mutateWeight testConfig (1 / 4) 2 state_c)) = Inr [[1], [2]]" by (rule w5)
    show "toggleEnabled org_c 3 state_c = Inr (synapse_toggleEnabled 2 state_c)" by (rule t)
    show "outputs_of (process_seq testConfig org_a [[1], [2]] (synapse_toggleEnabled 2 state_c))
        = Inr [[1], [2]]" by (rule w6)
  qed
qed

section \<open>The initial wiring\<close>

lemma add_gene_cong: "deref s g = deref s' g \<Longrightarrow> add_gene g s org = add_gene g s' org"
  by (auto simp: deref_def add_gene_def addNeuron_def addSynapse_def split: gene.splits)

lemma replay_cong:
  "\<forall>g \<in> set gs. deref s g = deref s' g \<Longrightarrow> replay s gs org = replay s' gs org"
proof (induction gs arbitrary: org)
  case Nil
  show ?case by simp
next
  case (Cons g gs)
  have "add_gene g s org = add_gene g s' org" using Cons.prems by (intro add_gene_cong) simp
  moreover have "replay s gs (add_gene g s' org) = replay s' gs (add_gene g s' org)"
    using Cons.prems by (intro Cons.IH) simp
  ultimately show ?case by (simp add: replay_Cons)
qed

lemma replay_extends:
  "extends s s' \<Longrightarrow> \<forall>g \<in> set gs. gene_ok s g \<Longrightarrow> replay s gs org = replay s' gs org"
  by (rule replay_cong) (simp add: deref_extends)

lemma replay_append: "replay s (gs @ hs) org = replay s hs (replay s gs org)"
  by (simp add: replay_def)

lemma genes_replay: "genes (replay s gs org) = genes org @ gs"
  by (induction gs arbitrary: org) (simp_all add: replay_Cons)

lemma ids_in_keys_add_gene: "ids_in_keys org \<Longrightarrow> ids_in_keys (add_gene g s org)"
proof (cases g)
  case (NeuronGene p)
  assume "ids_in_keys org"
  then show ?thesis using NeuronGene
    by (auto simp: ids_in_keys_def add_gene_def neurons_addNeuron sensors_addNeuron
        outputs_addNeuron dom_update)
next
  case (SynapseGene q)
  assume "ids_in_keys org"
  then show ?thesis using SynapseGene
    by (simp add: ids_in_keys_def add_gene_def fields_addSynapse)
qed

lemma ids_in_keys_replay: "ids_in_keys org \<Longrightarrow> ids_in_keys (replay s gs org)"
  by (induction gs arbitrary: org) (simp_all add: replay_Cons ids_in_keys_add_gene)

lemma key_lookup:
  assumes "keyed org s" and "k \<in> fst ` set (neurons org)"
  shows "\<exists>p. map_of (neurons org) k = Some p \<and> n_id (nheap s p) = k \<and> p \<in> nfoot org"
proof -
  from assms(2) obtain p where p: "(k, p) \<in> set (neurons org)" by auto
  have "distinct (map fst (neurons org))" using assms(1) by (simp add: keyed_def)
  then have "map_of (neurons org) k = Some p" using p by (rule map_of_is_SomeI)
  moreover have "n_id (nheap s p) = k" using assms(1) p by (auto simp: keyed_def)
  moreover have "p \<in> nfoot org" using p by (force simp: nfoot_def)
  ultimately show ?thesis by blast
qed

lemma neuron_entries_simps [simp]:
  "neuron_entries s [] = []"
  "neuron_entries s (NeuronGene p # gs) = (n_id (nheap s p), p) # neuron_entries s gs"
  "neuron_entries s (SynapseGene q # gs) = neuron_entries s gs"
  by (simp_all add: neuron_entries_def)

lemma synapse_entries_simps [simp]:
  "synapse_entries s [] = []"
  "synapse_entries s (NeuronGene p # gs) = synapse_entries s gs"
  "synapse_entries s (SynapseGene q # gs) = (s_id (sheap s q), q) # synapse_entries s gs"
  by (simp_all add: synapse_entries_def)

lemma neuron_entries_append [simp]:
  "neuron_entries s (gs @ hs) = neuron_entries s gs @ neuron_entries s hs"
  by (simp add: neuron_entries_def)

lemma synapse_entries_append [simp]:
  "synapse_entries s (gs @ hs) = synapse_entries s gs @ synapse_entries s hs"
  by (simp add: synapse_entries_def)

lemma update_new_key: "k \<notin> fst ` set al \<Longrightarrow> AList.update k v al = al @ [(k, v)]"
  by (induction al) auto

lemma neuron_entries_replay:
  "distinct (map fst (neurons org @ neuron_entries s gs)) \<Longrightarrow>
     neurons (replay s gs org) = neurons org @ neuron_entries s gs"
proof (induction gs arbitrary: org)
  case Nil
  show ?case by simp
next
  case (Cons g gs)
  show ?case
  proof (cases g)
    case (NeuronGene p)
    let ?o = "add_gene (NeuronGene p) s org"
    have nk: "n_id (nheap s p) \<notin> fst ` set (neurons org)"
      using Cons.prems NeuronGene by auto
    have k: "neurons ?o = neurons org @ [(n_id (nheap s p), p)]"
      using nk by (simp add: add_gene_def neurons_addNeuron update_new_key)
    have "distinct (map fst ((neurons org @ [(n_id (nheap s p), p)]) @ neuron_entries s gs))"
      using Cons.prems NeuronGene by simp
    then have "distinct (map fst (neurons ?o @ neuron_entries s gs))" by (simp only: k)
    from Cons.IH [OF this] show ?thesis
      by (simp only: NeuronGene replay_Cons k neuron_entries_simps) simp
  next
    case (SynapseGene q)
    let ?o = "add_gene (SynapseGene q) s org"
    have k: "neurons ?o = neurons org"
      by (simp add: add_gene_def fields_addSynapse)
    have "distinct (map fst (neurons ?o @ neuron_entries s gs))"
      using Cons.prems SynapseGene by (simp add: k)
    from Cons.IH [OF this] show ?thesis
      by (simp only: SynapseGene replay_Cons k neuron_entries_simps)
  qed
qed

lemma synapse_entries_replay:
  "distinct (map fst (synapses org @ synapse_entries s gs)) \<Longrightarrow>
     synapses (replay s gs org) = synapses org @ synapse_entries s gs"
proof (induction gs arbitrary: org)
  case Nil
  show ?case by simp
next
  case (Cons g gs)
  show ?case
  proof (cases g)
    case (SynapseGene q)
    let ?o = "add_gene (SynapseGene q) s org"
    have nk: "s_id (sheap s q) \<notin> fst ` set (synapses org)"
      using Cons.prems SynapseGene by auto
    have k: "synapses ?o = synapses org @ [(s_id (sheap s q), q)]"
      using nk by (simp add: add_gene_def fields_addSynapse update_new_key)
    have "distinct (map fst ((synapses org @ [(s_id (sheap s q), q)]) @ synapse_entries s gs))"
      using Cons.prems SynapseGene by simp
    then have "distinct (map fst (synapses ?o @ synapse_entries s gs))" by (simp only: k)
    from Cons.IH [OF this] show ?thesis
      by (simp only: SynapseGene replay_Cons k synapse_entries_simps) simp
  next
    case (NeuronGene p)
    let ?o = "add_gene (NeuronGene p) s org"
    have k: "synapses ?o = synapses org"
      by (simp add: add_gene_def synapses_addNeuron)
    have "distinct (map fst (synapses ?o @ synapse_entries s gs))"
      using Cons.prems NeuronGene by (simp add: k)
    from Cons.IH [OF this] show ?thesis
      by (simp only: NeuronGene replay_Cons k synapse_entries_simps)
  qed
qed

lemma newNeuron_eq:
  "newNeuron k s =
     (nnext s,
      s\<lparr>idCount := idCount s + 1, innovationCount := innovationCount s + 1,
        nheap := (nheap s)(nnext s := fresh_neuron k (idCount s + 1) (innovationCount s + 1)),
        nnext := Suc (nnext s)\<rparr>)"
  by (simp add: newNeuron_def nextID_def nextInnovation_def alloc_neuron_def fresh_neuron_def)

lemma newSynapse_eq:
  "newSynapse i out s =
     (snext s,
      s\<lparr>idCount := idCount s + 1, innovationCount := innovationCount s + 1,
        sheap := (sheap s)(snext s :=
          fresh_synapse (idCount s + 1) (n_id (nheap s i)) (n_id (nheap s out))
            (innovationCount s + 1)),
        snext := Suc (snext s)\<rparr>)"
  by (simp add: newSynapse_def nextID_def nextInnovation_def alloc_synapse_def fresh_synapse_def)

lemma add_new_neurons_props:
  "\<exists>org' s'. add_new_neurons (newNeuron k) n (org, s) = (org', s') \<and>
     extends s s' \<and> nnext s' = nnext s + n \<and> snext s' = snext s \<and> sheap s' = sheap s \<and>
     idCount s' = idCount s + of_nat n \<and> innovationCount s' = innovationCount s + of_nat n \<and>
     (\<forall>j < n. nheap s' (nnext s + j)
        = fresh_neuron k (idCount s + 1 + of_nat j) (innovationCount s + 1 + of_nat j)) \<and>
     org' = replay s' (map NeuronGene [nnext s ..< nnext s + n]) org"
proof (induction n arbitrary: org s)
  case 0
  show ?case by simp
next
  case (Suc n)
  let ?p = "nnext s"
  let ?s1 = "s\<lparr>idCount := idCount s + 1, innovationCount := innovationCount s + 1,
        nheap := (nheap s)(nnext s := fresh_neuron k (idCount s + 1) (innovationCount s + 1)),
        nnext := Suc (nnext s)\<rparr>"
  from Suc.IH [of "addNeuron ?p ?s1 org" ?s1] obtain org' s' where
    r: "add_new_neurons (newNeuron k) n (addNeuron ?p ?s1 org, ?s1) = (org', s')"
    and ext: "extends ?s1 s'" and nn: "nnext s' = nnext ?s1 + n" and sn: "snext s' = snext ?s1"
    and sh: "sheap s' = sheap ?s1" and ic: "idCount s' = idCount ?s1 + of_nat n"
    and vc: "innovationCount s' = innovationCount ?s1 + of_nat n"
    and hp: "\<forall>j < n. nheap s' (nnext ?s1 + j)
        = fresh_neuron k (idCount ?s1 + 1 + of_nat j) (innovationCount ?s1 + 1 + of_nat j)"
    and og: "org' = replay s' (map NeuronGene [nnext ?s1 ..< nnext ?s1 + n])
        (addNeuron ?p ?s1 org)"
    by blast
  have e1: "extends s ?s1" by (simp add: extends_def)
  have e: "extends s s'" using e1 ext by (rule extends_trans)
  have h0: "nheap s' ?p = fresh_neuron k (idCount s + 1) (innovationCount s + 1)"
    using ext by (simp add: extends_def)
  have hj: "\<forall>j < Suc n. nheap s' (nnext s + j)
        = fresh_neuron k (idCount s + 1 + of_nat j) (innovationCount s + 1 + of_nat j)"
  proof (intro allI impI)
    fix j assume j: "j < Suc n"
    show "nheap s' (nnext s + j)
        = fresh_neuron k (idCount s + 1 + of_nat j) (innovationCount s + 1 + of_nat j)"
    proof (cases j)
      case 0
      then show ?thesis using h0 by simp
    next
      case (Suc j')
      then have "j' < n" using j by simp
      then have "nheap s' (nnext ?s1 + j')
        = fresh_neuron k (idCount ?s1 + 1 + of_nat j') (innovationCount ?s1 + 1 + of_nat j')"
        using hp by simp
      then show ?thesis using Suc by (simp add: add.commute add.left_commute)
    qed
  qed
  have "deref ?s1 (NeuronGene ?p) = deref s' (NeuronGene ?p)"
    using h0 by (simp add: deref_def)
  then have ag: "addNeuron ?p ?s1 org = add_gene (NeuronGene ?p) s' org"
    using add_gene_cong [of ?s1 "NeuronGene ?p" s' org] by (simp add: add_gene_def)
  have up: "[nnext s ..< nnext s + Suc n] = nnext s # [Suc (nnext s) ..< Suc (nnext s) + n]"
    by (simp add: upt_conv_Cons)
  have og': "org' = replay s' (map NeuronGene [nnext s ..< nnext s + Suc n]) org"
    using og by (simp only: up ag) (simp add: replay_Cons)
  have "add_new_neurons (newNeuron k) (Suc n) (org, s) = (org', s')"
    using r by (simp add: newNeuron_eq)
  moreover have "nnext s' = nnext s + Suc n" using nn by simp
  moreover have "snext s' = snext s" using sn by simp
  moreover have "sheap s' = sheap s" using sh by simp
  moreover have "idCount s' = idCount s + of_nat (Suc n)" using ic by simp
  moreover have "innovationCount s' = innovationCount s + of_nat (Suc n)" using vc by simp
  ultimately show ?case using e hj og' by blast
qed

lemma ids_of_kind_single:
  "ids_of_kind k' [Inl n] = (if n_kind n = k' then [n_id n] else [])"
  by (simp add: ids_of_kind_def)

lemma ids_of_kind_fresh:
  "\<forall>j < n. nheap s (b + j) = fresh_neuron k (c + of_nat j) (v + of_nat j) \<Longrightarrow>
     ids_of_kind k' (map (deref s) (map NeuronGene [b ..< b + n]))
       = (if k' = k then map (\<lambda>j. c + of_nat j) [0 ..< n] else [])"
proof (induction n)
  case 0
  show ?case by simp
next
  case (Suc n)
  have ih: "ids_of_kind k' (map (deref s) (map NeuronGene [b ..< b + n]))
       = (if k' = k then map (\<lambda>j. c + of_nat j) [0 ..< n] else [])"
    using Suc.prems by (intro Suc.IH) simp
  have hn: "nheap s (b + n) = fresh_neuron k (c + of_nat n) (v + of_nat n)"
    using Suc.prems by simp
  have sp: "map (deref s) (map NeuronGene [b ..< b + Suc n])
      = map (deref s) (map NeuronGene [b ..< b + n]) @ [Inl (nheap s (b + n))]"
    by (simp add: deref_def)
  have l: "ids_of_kind k' [Inl (nheap s (b + n))] = (if k' = k then [c + of_nat n] else [])"
    by (simp only: ids_of_kind_single hn) (auto simp: fresh_neuron_def)
  show ?case by (simp only: sp ids_of_kind_append ih l) simp
qed

lemma resolves_keyed: "keyed org s \<Longrightarrow> ids_in_keys org \<Longrightarrow> resolves org s"
  unfolding resolves_def ids_in_keys_def using key_lookup by blast

lemma match_step_ok:
  assumes rs: "resolves org s" and nI: "0 < nI" and nO: "0 < nO"
    and ls: "length (sensors org) = nI" and lo: "length (outputs org) = nO"
  shows "\<exists>inp out. match_step nI nO i (org, s) =
           Inr (addSynapse (snext s) (snd (newSynapse inp out s)) org, snd (newSynapse inp out s)) \<and>
           n_id (nheap s inp) = sensors org ! (i mod nI) \<and>
           n_id (nheap s out) = outputs org ! (i mod nO)"
proof -
  have i1: "i mod nI < length (sensors org)" using nI ls by simp
  have i2: "i mod nO < length (outputs org)" using nO lo by simp
  from rs i1 obtain inp where inp: "map_of (neurons org) (sensors org ! (i mod nI)) = Some inp"
    and ii: "n_id (nheap s inp) = sensors org ! (i mod nI)"
    unfolding resolves_def by (meson UnI1 nth_mem)
  from rs i2 obtain out where out: "map_of (neurons org) (outputs org ! (i mod nO)) = Some out"
    and oi: "n_id (nheap s out) = outputs org ! (i mod nO)"
    unfolding resolves_def by (meson UnI2 nth_mem)
  have "match_step nI nO i (org, s) =
           Inr (addSynapse (snext s) (snd (newSynapse inp out s)) org, snd (newSynapse inp out s))"
    using nI nO i1 i2 inp out by (simp add: match_step_def newSynapse_eq)
  with ii oi show ?thesis by blast
qed

lemma match_loop_props:
  "resolves org s \<Longrightarrow> 0 < nI \<Longrightarrow> 0 < nO \<Longrightarrow>
   length (sensors org) = nI \<Longrightarrow> length (outputs org) = nO \<Longrightarrow>
   \<exists>org' s'. match_loop nI nO is (org, s) = Inr (org', s') \<and>
     nheap s' = nheap s \<and> nnext s' = nnext s \<and> extends s s' \<and>
     snext s' = snext s + length is \<and>
     idCount s' = idCount s + of_nat (length is) \<and>
     innovationCount s' = innovationCount s + of_nat (length is) \<and>
     (\<forall>j < length is. sheap s' (snext s + j)
        = fresh_synapse (idCount s + 1 + of_nat j) (sensors org ! (is ! j mod nI))
            (outputs org ! (is ! j mod nO)) (innovationCount s + 1 + of_nat j)) \<and>
     org' = replay s' (map SynapseGene [snext s ..< snext s + length is]) org"
proof (induction "is" arbitrary: org s)
  case Nil
  then show ?case by simp
next
  case (Cons i "is")
  from match_step_ok [OF Cons.prems, of i] obtain inp out where
    ms: "match_step nI nO i (org, s) =
           Inr (addSynapse (snext s) (snd (newSynapse inp out s)) org, snd (newSynapse inp out s))"
    and ii: "n_id (nheap s inp) = sensors org ! (i mod nI)"
    and oi: "n_id (nheap s out) = outputs org ! (i mod nO)"
    by blast
  let ?y = "fresh_synapse (idCount s + 1) (sensors org ! (i mod nI)) (outputs org ! (i mod nO))
            (innovationCount s + 1)"
  let ?s1 = "s\<lparr>idCount := idCount s + 1, innovationCount := innovationCount s + 1,
        sheap := (sheap s)(snext s := ?y), snext := Suc (snext s)\<rparr>"
  let ?o1 = "addSynapse (snext s) ?s1 org"
  have s1: "snd (newSynapse inp out s) = ?s1" by (simp add: newSynapse_eq ii oi)
  have f1: "sensors ?o1 = sensors org" "outputs ?o1 = outputs org" "neurons ?o1 = neurons org"
    by (simp_all add: fields_addSynapse)
  have r1: "resolves ?o1 ?s1" using Cons.prems(1) by (simp add: resolves_def f1)
  have l1: "length (sensors ?o1) = nI" "length (outputs ?o1) = nO"
    using Cons.prems(4,5) by (simp_all add: f1)
  from Cons.IH [OF r1 Cons.prems(2,3) l1] obtain org' s' where
    r: "match_loop nI nO is (?o1, ?s1) = Inr (org', s')"
    and nh: "nheap s' = nheap ?s1" and nn: "nnext s' = nnext ?s1" and ext: "extends ?s1 s'"
    and sn: "snext s' = snext ?s1 + length is"
    and ic: "idCount s' = idCount ?s1 + of_nat (length is)"
    and vc: "innovationCount s' = innovationCount ?s1 + of_nat (length is)"
    and hp: "\<forall>j < length is. sheap s' (snext ?s1 + j)
        = fresh_synapse (idCount ?s1 + 1 + of_nat j) (sensors ?o1 ! (is ! j mod nI))
            (outputs ?o1 ! (is ! j mod nO)) (innovationCount ?s1 + 1 + of_nat j)"
    and og: "org' = replay s' (map SynapseGene [snext ?s1 ..< snext ?s1 + length is]) ?o1"
    by blast
  have e1: "extends s ?s1" by (simp add: extends_def)
  have e: "extends s s'" using e1 ext by (rule extends_trans)
  have h0: "sheap s' (snext s) = ?y" using ext by (simp add: extends_def)
  have hj: "\<forall>j < length (i # is). sheap s' (snext s + j)
        = fresh_synapse (idCount s + 1 + of_nat j) (sensors org ! ((i # is) ! j mod nI))
            (outputs org ! ((i # is) ! j mod nO)) (innovationCount s + 1 + of_nat j)"
  proof (intro allI impI)
    fix j assume j: "j < length (i # is)"
    show "sheap s' (snext s + j)
        = fresh_synapse (idCount s + 1 + of_nat j) (sensors org ! ((i # is) ! j mod nI))
            (outputs org ! ((i # is) ! j mod nO)) (innovationCount s + 1 + of_nat j)"
    proof (cases j)
      case 0
      then show ?thesis using h0 by simp
    next
      case (Suc j')
      then have "j' < length is" using j by simp
      then have "sheap s' (snext ?s1 + j')
        = fresh_synapse (idCount ?s1 + 1 + of_nat j') (sensors ?o1 ! (is ! j' mod nI))
            (outputs ?o1 ! (is ! j' mod nO)) (innovationCount ?s1 + 1 + of_nat j')"
        using hp by simp
      then show ?thesis using Suc by (simp add: fields_addSynapse add.commute add.left_commute)
    qed
  qed
  have "deref ?s1 (SynapseGene (snext s)) = deref s' (SynapseGene (snext s))"
    using h0 by (simp add: deref_def)
  then have ag: "?o1 = add_gene (SynapseGene (snext s)) s' org"
    using add_gene_cong [of ?s1 "SynapseGene (snext s)" s' org] by (simp add: add_gene_def)
  have up: "[snext s ..< snext s + length (i # is)]
      = snext s # [Suc (snext s) ..< Suc (snext s) + length is]"
    using upt_rec [of "snext s" "snext s + Suc (length is)"] by (simp del: upt_Suc)
  have og': "org' = replay s' (map SynapseGene [snext s ..< snext s + length (i # is)]) org"
    using og by (simp only: up ag) (simp add: replay_Cons)
  have "match_loop nI nO (i # is) (org, s) = Inr (org', s')" using r ms s1 by simp
  moreover have "nheap s' = nheap s" using nh by simp
  moreover have "nnext s' = nnext s" using nn by simp
  moreover have "snext s' = snext s + length (i # is)" using sn by simp
  moreover have "idCount s' = idCount s + of_nat (length (i # is))" using ic by simp
  moreover have "innovationCount s' = innovationCount s + of_nat (length (i # is))"
    using vc by simp
  ultimately show ?case using e hj og' by blast
qed

lemma map_upt_shift: "map f [a ..< a + n] = map (\<lambda>j. f (a + j)) [0 ..< n]"
  by (induction n) simp_all

lemma neuron_entries_map:
  "neuron_entries s (map NeuronGene ps) = map (\<lambda>p. (n_id (nheap s p), p)) ps"
  "neuron_entries s (map SynapseGene qs) = []"
  by (induction ps, simp_all) (induction qs, simp_all)

lemma synapse_entries_map:
  "synapse_entries s (map SynapseGene qs) = map (\<lambda>q. (s_id (sheap s q), q)) qs"
  "synapse_entries s (map NeuronGene ps) = []"
  by (induction qs, simp_all) (induction ps, simp_all)

lemma ids_of_kind_synapses:
  "ids_of_kind k (map (deref s) (map SynapseGene qs)) = []"
  "ids_of_kind k (map (deref s \<circ> SynapseGene) qs) = []"
  by (induction qs, simp_all add: ids_of_kind_def deref_def)

lemma distinct_word_range:
  assumes "n \<le> 2 ^ 64"
  shows "distinct (map (\<lambda>j. c + (of_nat j :: 64 word)) [0 ..< n])"
proof -
  have "inj_on (\<lambda>j. c + (of_nat j :: 64 word)) {0 ..< n}"
    using assms by (intro inj_onI) (simp add: word_of_nat_eq_iff take_bit_nat_eq_self)
  then show ?thesis by (simp add: distinct_map)
qed

lemma replay_self: "(replay s gs org)\<lparr>generation := generation (replay s gs org),
    fitness := fitness (replay s gs org)\<rparr> = replay s gs org"
  by simp

text \<open>
  The two neuron loops of \<open>newOrganism\<close>: the neurons created, and the organism they
  are added to.
\<close>

lemma newOrganism_neurons:
  "\<exists>o2 s2. add_new_neurons newOutputNeuron nO
       (add_new_neurons newSensorNeuron nI (empty_organism, s)) = (o2, s2) \<and>
     nnext s2 = nnext s + (nI + nO) \<and> snext s2 = snext s \<and>
     idCount s2 = idCount s + of_nat (nI + nO) \<and>
     innovationCount s2 = innovationCount s + of_nat (nI + nO) \<and>
     (\<forall>j < nI. nheap s2 (nnext s + j)
        = fresh_neuron sensorNeuron (idCount s + 1 + of_nat j) (innovationCount s + 1 + of_nat j)) \<and>
     (\<forall>j < nO. nheap s2 (nnext s + nI + j)
        = fresh_neuron outputNeuron (idCount s + 1 + of_nat (nI + j))
            (innovationCount s + 1 + of_nat (nI + j))) \<and>
     o2 = replay s2 (map NeuronGene [nnext s ..< nnext s + (nI + nO)]) empty_organism"
proof -
  let ?e = "empty_organism"
  from add_new_neurons_props [of sensorNeuron nI ?e s] obtain o1 s1 where
    r1: "add_new_neurons (newNeuron sensorNeuron) nI (?e, s) = (o1, s1)"
    and nn1: "nnext s1 = nnext s + nI" and sn1: "snext s1 = snext s"
    and ic1: "idCount s1 = idCount s + of_nat nI"
    and vc1: "innovationCount s1 = innovationCount s + of_nat nI"
    and hp1: "\<forall>j < nI. nheap s1 (nnext s + j)
        = fresh_neuron sensorNeuron (idCount s + 1 + of_nat j) (innovationCount s + 1 + of_nat j)"
    and og1: "o1 = replay s1 (map NeuronGene [nnext s ..< nnext s + nI]) ?e"
    by blast
  from add_new_neurons_props [of outputNeuron nO o1 s1] obtain o2 s2 where
    r2: "add_new_neurons (newNeuron outputNeuron) nO (o1, s1) = (o2, s2)"
    and ext2: "extends s1 s2"
    and nn2: "nnext s2 = nnext s1 + nO" and sn2: "snext s2 = snext s1"
    and ic2: "idCount s2 = idCount s1 + of_nat nO"
    and vc2: "innovationCount s2 = innovationCount s1 + of_nat nO"
    and hp2: "\<forall>j < nO. nheap s2 (nnext s1 + j)
        = fresh_neuron outputNeuron (idCount s1 + 1 + of_nat j) (innovationCount s1 + 1 + of_nat j)"
    and og2: "o2 = replay s2 (map NeuronGene [nnext s1 ..< nnext s1 + nO]) o1"
    by blast
  have ok1: "\<forall>g \<in> set (map NeuronGene [nnext s ..< nnext s + nI]). gene_ok s1 g"
    by (auto simp: gene_ok_def nn1)
  have o1': "o1 = replay s2 (map NeuronGene [nnext s ..< nnext s + nI]) ?e"
    using replay_extends [OF ext2 ok1] og1 by simp
  have up: "[nnext s ..< nnext s + (nI + nO)]
      = [nnext s ..< nnext s + nI] @ [nnext s + nI ..< nnext s + nI + nO]"
    using upt_add_eq_append [of "nnext s" "nnext s + nI" nO] by (simp add: add.assoc)
  have o2': "o2 = replay s2 (map NeuronGene [nnext s ..< nnext s + (nI + nO)]) ?e"
    using og2 o1' by (simp only: up map_append replay_append nn1)
  have h1: "\<forall>j < nI. nheap s2 (nnext s + j)
        = fresh_neuron sensorNeuron (idCount s + 1 + of_nat j) (innovationCount s + 1 + of_nat j)"
    using hp1 ext2 nn1 by (simp add: extends_def)
  have h2: "\<forall>j < nO. nheap s2 (nnext s + nI + j)
        = fresh_neuron outputNeuron (idCount s + 1 + of_nat (nI + j))
            (innovationCount s + 1 + of_nat (nI + j))"
    using hp2 by (simp add: nn1 ic1 vc1 add.commute add.left_commute)
  have "add_new_neurons newOutputNeuron nO
       (add_new_neurons newSensorNeuron nI (empty_organism, s)) = (o2, s2)"
    using r1 r2 by (simp add: newOutputNeuron_def newSensorNeuron_def)
  moreover have "nnext s2 = nnext s + (nI + nO)" using nn1 nn2 by simp
  moreover have "snext s2 = snext s" using sn1 sn2 by simp
  moreover have "idCount s2 = idCount s + of_nat (nI + nO)" using ic1 ic2 by simp
  moreover have "innovationCount s2 = innovationCount s + of_nat (nI + nO)"
    using vc1 vc2 by simp
  ultimately show ?thesis using h1 h2 o2' by blast
qed

text \<open>
  C9 fails on the code where a \<open>make\<close> call of \<open>_newOrganism\<close> panics: for \<open>nInputs\<close>
  and \<open>nOutputs\<close> of at least 1 (and in the range of a Go int), \<open>newOrganism\<close> stops
  with that panic when the \<open>nInputs\<close> or the \<open>nOutputs\<close> ids or the
  \<open>nInputs * nOutputs\<close> genes, counted with the wrapped product, are negative in number
  or take more than the allocation limit.  Otherwise it returns a genome with
  \<open>nInputs\<close> sensor neurons followed by \<open>nOutputs\<close> output neurons, no other neuron,
  and \<open>max(nInputs, nOutputs)\<close> synapses, each enabled with weight 1, the \<open>i\<close>-th from
  sensor \<open>i mod nInputs\<close> to output \<open>i mod nOutputs\<close>; the ids and innovation numbers
  are the next values of the two counters.
\<close>

theorem newOrganism_wiring:
  assumes "1 \<le> nInputs" and "1 \<le> nOutputs" and "nInputs < 2 ^ 63" and "nOutputs < 2 ^ 63"
  shows "(alloc_ok maxAlloc nInputs nOutputs \<longrightarrow>
    (\<exists>org s'. newOrganism maxAlloc (int nInputs) (int nOutputs) s = Inr (org, s') \<and>
     wf_genome org s' \<and>
     length (sensors org) = nInputs \<and> length (outputs org) = nOutputs \<and>
     length (neurons org) = nInputs + nOutputs \<and>
     length (synapses org) = max nInputs nOutputs \<and>
     sensors org = map (\<lambda>j. idCount s + 1 + of_nat j) [0 ..< nInputs] \<and>
     outputs org = map (\<lambda>j. idCount s + 1 + of_nat (nInputs + j)) [0 ..< nOutputs] \<and>
     neurons org = map (\<lambda>j. (idCount s + 1 + of_nat j, nnext s + j)) [0 ..< nInputs + nOutputs] \<and>
     synapses org = map (\<lambda>i. (idCount s + 1 + of_nat (nInputs + nOutputs + i), snext s + i))
                      [0 ..< max nInputs nOutputs] \<and>
     genes org = map NeuronGene [nnext s ..< nnext s + (nInputs + nOutputs)]
                   @ map SynapseGene [snext s ..< snext s + max nInputs nOutputs] \<and>
     (\<forall>j < nInputs. nheap s' (nnext s + j)
        = fresh_neuron sensorNeuron (idCount s + 1 + of_nat j)
            (innovationCount s + 1 + of_nat j)) \<and>
     (\<forall>j < nOutputs. nheap s' (nnext s + nInputs + j)
        = fresh_neuron outputNeuron (idCount s + 1 + of_nat (nInputs + j))
            (innovationCount s + 1 + of_nat (nInputs + j))) \<and>
     (\<forall>i < max nInputs nOutputs. sheap s' (snext s + i)
        = fresh_synapse (idCount s + 1 + of_nat (nInputs + nOutputs + i))
            (sensors org ! (i mod nInputs)) (outputs org ! (i mod nOutputs))
            (innovationCount s + 1 + of_nat (nInputs + nOutputs + i))))) \<and>
   (\<not> alloc_ok maxAlloc nInputs nOutputs \<longrightarrow>
      newOrganism maxAlloc (int nInputs) (int nOutputs) s = Inl MakeSliceLen)"
  (is "(_ \<longrightarrow> ?A) \<and> (_ \<longrightarrow> ?B)")
proof (intro conjI impI)
  assume "\<not> alloc_ok maxAlloc nInputs nOutputs"
  then show ?B by (simp add: newOrganism_unfold)
next
  assume al: "alloc_ok maxAlloc nInputs nOutputs"
  let ?nI = nInputs and ?nO = nOutputs
  let ?N = "nInputs + nOutputs" and ?m = "max nInputs nOutputs"
  let ?e = "empty_organism"
  let ?NG = "map NeuronGene [nnext s ..< nnext s + ?N]"
  let ?SG = "map SynapseGene [snext s ..< snext s + ?m]"
  let ?c = "idCount s + 1" and ?v = "innovationCount s + 1"
  from newOrganism_neurons [of ?nO ?nI s] obtain o2 s2 where
    r2: "add_new_neurons newOutputNeuron ?nO
       (add_new_neurons newSensorNeuron ?nI (empty_organism, s)) = (o2, s2)"
    and nn2: "nnext s2 = nnext s + ?N" and sn2: "snext s2 = snext s"
    and ic2: "idCount s2 = idCount s + of_nat ?N"
    and vc2: "innovationCount s2 = innovationCount s + of_nat ?N"
    and h1: "\<forall>j < ?nI. nheap s2 (nnext s + j)
        = fresh_neuron sensorNeuron (?c + of_nat j) (?v + of_nat j)"
    and h2: "\<forall>j < ?nO. nheap s2 (nnext s + ?nI + j)
        = fresh_neuron outputNeuron (?c + of_nat (?nI + j)) (?v + of_nat (?nI + j))"
    and og2: "o2 = replay s2 ?NG ?e"
    by blast
  \<comment> \<open>the sensor and output lists after the two neuron loops\<close>
  have up: "[nnext s ..< nnext s + ?N]
      = [nnext s ..< nnext s + ?nI] @ [nnext s + ?nI ..< nnext s + ?nI + ?nO]"
    using upt_add_eq_append [of "nnext s" "nnext s + ?nI" ?nO] by (simp add: add.assoc)
  have h2': "\<forall>j < ?nO. nheap s2 (nnext s + ?nI + j)
        = fresh_neuron outputNeuron ((?c + of_nat ?nI) + of_nat j) ((?v + of_nat ?nI) + of_nat j)"
    using h2 by (simp add: add.assoc)
  have ids: "ids_of_kind k (map (deref s2) ?NG)
      = (if k = sensorNeuron then map (\<lambda>j. ?c + of_nat j) [0 ..< ?nI] else [])
        @ (if k = outputNeuron then map (\<lambda>j. (?c + of_nat ?nI) + of_nat j) [0 ..< ?nO] else [])"
    for k
    by (simp only: up map_append ids_of_kind_append ids_of_kind_fresh [OF h1]
        ids_of_kind_fresh [OF h2'])
  have se2: "sensors o2 = map (\<lambda>j. ?c + of_nat j) [0 ..< ?nI]"
    by (simp only: og2 sensors_replay ids) (simp add: empty_organism_def)
  have ou2: "outputs o2 = map (\<lambda>j. ?c + of_nat (?nI + j)) [0 ..< ?nO]"
    by (simp only: og2 outputs_replay ids) (simp add: empty_organism_def add.assoc)
  have ky2: "keyed o2 s2" unfolding og2 by (rule keyed_replay) simp
  have ik2: "ids_in_keys o2" unfolding og2
    by (rule ids_in_keys_replay) (simp add: ids_in_keys_def empty_organism_def)
  have rs2: "resolves o2 s2" using ky2 ik2 by (rule resolves_keyed)
  have pI: "0 < ?nI" and pO: "0 < ?nO" using assms(1,2) by simp_all
  have l2: "length (sensors o2) = ?nI" "length (outputs o2) = ?nO"
    by (simp_all add: se2 ou2)
  \<comment> \<open>the synapse loop\<close>
  from match_loop_props [OF rs2 pI pO l2, of "[0 ..< ?m]"] obtain org s3 where
    r3: "match_loop ?nI ?nO [0 ..< ?m] (o2, s2) = Inr (org, s3)"
    and nh3: "nheap s3 = nheap s2" and nn3: "nnext s3 = nnext s2"
    and sn3': "snext s3 = snext s2 + length [0 ..< ?m]"
    and hp3: "\<forall>j < length [0 ..< ?m]. sheap s3 (snext s2 + j)
        = fresh_synapse (idCount s2 + 1 + of_nat j) (sensors o2 ! ([0 ..< ?m] ! j mod ?nI))
            (outputs o2 ! ([0 ..< ?m] ! j mod ?nO)) (innovationCount s2 + 1 + of_nat j)"
    and og3: "org = replay s3 (map SynapseGene [snext s2 ..< snext s2 + length [0 ..< ?m]]) o2"
    by blast
  have sn3: "snext s3 = snext s2 + ?m" using sn3' by simp
  have h3: "\<forall>i < ?m. sheap s3 (snext s + i)
        = fresh_synapse (?c + of_nat (?N + i)) (sensors o2 ! (i mod ?nI))
            (outputs o2 ! (i mod ?nO)) (?v + of_nat (?N + i))"
    using hp3 by (simp add: sn2 ic2 vc2 add.commute add.left_commute)
  have dn: "\<forall>g \<in> set ?NG. deref s2 g = deref s3 g" by (auto simp: deref_def nh3)
  have o2': "o2 = replay s3 ?NG ?e" using replay_cong [OF dn] og2 by simp
  have og: "org = replay s3 (?NG @ ?SG) ?e"
    using og3 o2' by (simp add: replay_append sn2)
  have f3: "sensors org = sensors o2" "outputs org = outputs o2"
    by (simp_all add: og3 sensors_replay outputs_replay ids_of_kind_synapses)
  \<comment> \<open>the maps\<close>
  have nid: "\<forall>j < ?N. n_id (nheap s3 (nnext s + j)) = ?c + of_nat j"
  proof (intro allI impI)
    fix j assume j: "j < ?N"
    show "n_id (nheap s3 (nnext s + j)) = ?c + of_nat j"
    proof (cases "j < ?nI")
      case True
      then show ?thesis using h1 by (simp add: nh3 fresh_neuron_def)
    next
      case False
      then have "j - ?nI < ?nO" and jj: "j = ?nI + (j - ?nI)" using j by simp_all
      then have "nheap s2 (nnext s + ?nI + (j - ?nI))
          = fresh_neuron outputNeuron (?c + of_nat (?nI + (j - ?nI))) (?v + of_nat (?nI + (j - ?nI)))"
        using h2 by blast
      moreover have "nnext s + ?nI + (j - ?nI) = nnext s + j" using jj by simp
      ultimately show ?thesis using jj by (simp add: nh3 fresh_neuron_def)
    qed
  qed
  have "neuron_entries s3 (?NG @ ?SG)
      = map (\<lambda>p. (n_id (nheap s3 p), p)) [nnext s ..< nnext s + ?N]"
    by (simp only: neuron_entries_append neuron_entries_map append_Nil2)
  also have "\<dots> = map (\<lambda>j. (n_id (nheap s3 (nnext s + j)), nnext s + j)) [0 ..< ?N]"
    by (rule map_upt_shift)
  also have "\<dots> = map (\<lambda>j. (?c + of_nat j, nnext s + j)) [0 ..< ?N]"
    using nid by simp
  finally have ne: "neuron_entries s3 (?NG @ ?SG)
      = map (\<lambda>j. (?c + of_nat j, nnext s + j)) [0 ..< ?N]" .
  have "synapse_entries s3 (?NG @ ?SG)
      = map (\<lambda>q. (s_id (sheap s3 q), q)) [snext s ..< snext s + ?m]"
    by (simp only: synapse_entries_append synapse_entries_map append_Nil)
  also have "\<dots> = map (\<lambda>i. (s_id (sheap s3 (snext s + i)), snext s + i)) [0 ..< ?m]"
    by (rule map_upt_shift)
  also have "\<dots> = map (\<lambda>i. (?c + of_nat (?N + i), snext s + i)) [0 ..< ?m]"
    using h3 by (simp add: fresh_synapse_def)
  finally have se: "synapse_entries s3 (?NG @ ?SG)
      = map (\<lambda>i. (?c + of_nat (?N + i), snext s + i)) [0 ..< ?m]" .
  have N64: "?N \<le> 2 ^ 64" using assms(3,4) by simp
  have m64: "?m \<le> 2 ^ 64" using assms(3,4) by simp
  have en: "neurons ?e = []" "synapses ?e = []" by (simp_all add: empty_organism_def)
  have d1: "distinct (map fst (neurons ?e @ neuron_entries s3 (?NG @ ?SG)))"
    unfolding en ne using distinct_word_range [OF N64, of ?c] by (simp add: comp_def)
  have d2: "distinct (map fst (synapses ?e @ synapse_entries s3 (?NG @ ?SG)))"
    unfolding en se using distinct_word_range [OF m64, of "?c + of_nat ?N"]
    by (simp add: comp_def add.assoc)
  have nr: "neurons org = map (\<lambda>j. (?c + of_nat j, nnext s + j)) [0 ..< ?N]"
    by (simp only: og neuron_entries_replay [OF d1] en ne append_Nil)
  have sy: "synapses org = map (\<lambda>i. (?c + of_nat (?N + i), snext s + i)) [0 ..< ?m]"
    by (simp only: og synapse_entries_replay [OF d2] en se append_Nil)
  \<comment> \<open>the genome\<close>
  have gs: "genes org = ?NG @ ?SG" by (simp add: og genes_replay empty_organism_def)
  have ok: "list_all (gene_ok s3) (?NG @ ?SG)"
    by (auto simp: list_all_iff gene_ok_def nn3 nn2 sn3 sn2)
  have wf: "wf_genome org s3"
    unfolding wf_genome_def gs using ok og by (simp only: replay_self)
  have res: "newOrganism maxAlloc (int ?nI) (int ?nO) s = Inr (org, s3)"
    using r2 r3 al by (simp add: newOrganism_unfold)
  have c1: "\<forall>j < ?nI. nheap s3 (nnext s + j)
        = fresh_neuron sensorNeuron (?c + of_nat j) (?v + of_nat j)"
    using h1 by (simp add: nh3)
  have c2: "\<forall>j < ?nO. nheap s3 (nnext s + ?nI + j)
        = fresh_neuron outputNeuron (?c + of_nat (?nI + j)) (?v + of_nat (?nI + j))"
    using h2 by (simp add: nh3)
  have c3: "\<forall>i < ?m. sheap s3 (snext s + i)
        = fresh_synapse (?c + of_nat (?N + i)) (sensors org ! (i mod ?nI))
            (outputs org ! (i mod ?nO)) (?v + of_nat (?N + i))"
    using h3 by (simp add: f3)
  have ls: "length (sensors org) = ?nI" "length (outputs org) = ?nO"
    "length (neurons org) = ?N" "length (synapses org) = ?m"
    by (simp_all add: f3 l2 nr sy)
  have s4: "sensors org = map (\<lambda>j. ?c + of_nat j) [0 ..< ?nI]"
    and o4: "outputs org = map (\<lambda>j. ?c + of_nat (?nI + j)) [0 ..< ?nO]"
    by (simp_all add: f3 se2 ou2)
  show ?A
    using res wf ls s4 o4 nr sy gs c1 c2 c3
    by (intro exI [of _ org] exI [of _ s3] conjI)
qed

text \<open>
  \<open>newOrganism(2, 3)\<close> from the initial state; \<open>newOrganism(16777216, 16777216)\<close>,
  whose \<open>2 ^ 48\<close> genes of 16 bytes are more than a limit of \<open>2 ^ 48\<close> bytes; and
  \<open>newOrganism(4294967296, 2147483648)\<close>, whose product wraps to a negative number.
\<close>

theorem newOrganism_wiring_witness:
  "newOrganism (2 ^ 48) (2 ^ 24) (2 ^ 24) init_state = Inl MakeSliceLen \<and>
   newOrganism (2 ^ 48) (2 ^ 32) (2 ^ 31) init_state = Inl MakeSliceLen \<and>
   (\<exists>org s'. newOrganism 1024 2 3 init_state = Inr (org, s') \<and>
     sensors org = [1, 2] \<and> outputs org = [3, 4, 5] \<and>
     neurons org = [(1, 0), (2, 1), (3, 2), (4, 3), (5, 4)] \<and>
     synapses org = [(6, 0), (7, 1), (8, 2)] \<and>
     genes org = [NeuronGene 0, NeuronGene 1, NeuronGene 2, NeuronGene 3, NeuronGene 4,
                  SynapseGene 0, SynapseGene 1, SynapseGene 2] \<and>
     n_kind (nheap s' 1) = sensorNeuron \<and> n_kind (nheap s' 2) = outputNeuron \<and>
     sheap s' 0 = fresh_synapse 6 1 3 6 \<and>
     sheap s' 1 = fresh_synapse 7 2 4 7 \<and>
     sheap s' 2 = fresh_synapse 8 1 5 8)"
proof -
  have b1: "newOrganism (2 ^ 48) (2 ^ 24) (2 ^ 24) init_state = Inl MakeSliceLen"
  proof -
    have "\<not> alloc_ok (2 ^ 48) (2 ^ 24) (2 ^ 24)"
      using alloc_ok_small [of "2 ^ 24" "2 ^ 24" "2 ^ 48"] by simp
    moreover have "(1::nat) \<le> 2 ^ 24" "(2::nat) ^ 24 < 2 ^ 63" by simp_all
    ultimately have "newOrganism (2 ^ 48) (int (2 ^ 24)) (int (2 ^ 24)) init_state
        = Inl MakeSliceLen"
      using newOrganism_wiring [of "2 ^ 24" "2 ^ 24" "2 ^ 48" init_state] by blast
    then show ?thesis by simp
  qed
  have b2: "newOrganism (2 ^ 48) (2 ^ 32) (2 ^ 31) init_state = Inl MakeSliceLen"
  proof -
    have "int_mul (int (2 ^ 32)) (int (2 ^ 31)) = - (2 ^ 63)" by (simp add: int_mul_eq)
    then have "\<not> alloc_ok (2 ^ 48) (2 ^ 32) (2 ^ 31)" by (simp add: alloc_ok_def)
    moreover have "(1::nat) \<le> 2 ^ 32" "(2::nat) ^ 32 < 2 ^ 63" "(1::nat) \<le> 2 ^ 31"
      "(2::nat) ^ 31 < 2 ^ 63" by simp_all
    ultimately have "newOrganism (2 ^ 48) (int (2 ^ 32)) (int (2 ^ 31)) init_state
        = Inl MakeSliceLen"
      using newOrganism_wiring [of "2 ^ 32" "2 ^ 31" "2 ^ 48" init_state] by blast
    then show ?thesis by simp
  qed
  have h: "(1::nat) \<le> 2" "(1::nat) \<le> 3" "(2::nat) < 2 ^ 63" "(3::nat) < 2 ^ 63" by simp_all
  have al: "alloc_ok 1024 2 3" using alloc_ok_small [of 2 3 1024] by simp
  from newOrganism_wiring [OF h, of 1024 init_state] al obtain org s' where
    r: "newOrganism 1024 (int 2) (int 3) init_state = Inr (org, s')"
    and se: "sensors org = map (\<lambda>j. idCount init_state + 1 + of_nat j) [0 ..< 2]"
    and ou: "outputs org = map (\<lambda>j. idCount init_state + 1 + of_nat (2 + j)) [0 ..< 3]"
    and ne: "neurons org
        = map (\<lambda>j. (idCount init_state + 1 + of_nat j, nnext init_state + j)) [0 ..< 2 + 3]"
    and sy: "synapses org
        = map (\<lambda>i. (idCount init_state + 1 + of_nat (2 + 3 + i), snext init_state + i))
            [0 ..< max 2 3]"
    and ge: "genes org = map NeuronGene [nnext init_state ..< nnext init_state + (2 + 3)]
                   @ map SynapseGene [snext init_state ..< snext init_state + max 2 3]"
    and c1: "\<forall>j < 2. nheap s' (nnext init_state + j)
        = fresh_neuron sensorNeuron (idCount init_state + 1 + of_nat j)
            (innovationCount init_state + 1 + of_nat j)"
    and c2: "\<forall>j < 3. nheap s' (nnext init_state + 2 + j)
        = fresh_neuron outputNeuron (idCount init_state + 1 + of_nat (2 + j))
            (innovationCount init_state + 1 + of_nat (2 + j))"
    and c3: "\<forall>i < max 2 3. sheap s' (snext init_state + i)
        = fresh_synapse (idCount init_state + 1 + of_nat (2 + 3 + i))
            (sensors org ! (i mod 2)) (outputs org ! (i mod 3))
            (innovationCount init_state + 1 + of_nat (2 + 3 + i))"
    by blast
  have i0: "idCount init_state = 0" "innovationCount init_state = 0" "nnext init_state = 0"
    "snext init_state = 0"
    by (simp_all add: init_state_def)
  have u: "[0 ..< 2] = [0, 1::nat]" "[0 ..< 3] = [0, 1, 2::nat]" "[0 ..< 2 + 3] = [0, 1, 2, 3, 4::nat]"
    "[0 ..< 0 + (2 + 3)] = [0, 1, 2, 3, 4::nat]" "[0 ..< 0 + max 2 3] = [0, 1, 2::nat]"
    "[0 ..< max 2 3] = [0, 1, 2::nat]" "[0 ..< 5] = [0, 1, 2, 3, 4::nat]"
    by (simp_all add: upt_rec)
  have se': "sensors org = [1, 2]" by (simp add: se i0 u)
  have ou': "outputs org = [3, 4, 5]" by (simp add: ou i0 u)
  have ne': "neurons org = [(1, 0), (2, 1), (3, 2), (4, 3), (5, 4)]" by (simp add: ne i0 u)
  have sy': "synapses org = [(6, 0), (7, 1), (8, 2)]" by (simp add: sy i0 u)
  have ge': "genes org = [NeuronGene 0, NeuronGene 1, NeuronGene 2, NeuronGene 3, NeuronGene 4,
                  SynapseGene 0, SynapseGene 1, SynapseGene 2]"
    by (simp add: ge i0 u)
  have k1: "n_kind (nheap s' 1) = sensorNeuron"
    using c1 [rule_format, of 1] by (simp add: i0 fresh_neuron_def)
  have k2: "n_kind (nheap s' 2) = outputNeuron"
    using c2 [rule_format, of 0] by (simp add: i0 fresh_neuron_def numeral_2_eq_2)
  have y0: "sheap s' 0 = fresh_synapse 6 1 3 6"
    using c3 [rule_format, of 0] by (simp add: i0 se' ou')
  have y1: "sheap s' 1 = fresh_synapse 7 2 4 7"
    using c3 [rule_format, of 1] by (simp add: i0 se' ou')
  have y2: "sheap s' 2 = fresh_synapse 8 1 5 8"
    using c3 [rule_format, of 2] by (simp add: i0 se' ou' numeral_2_eq_2)
  have r': "newOrganism 1024 2 3 init_state = Inr (org, s')" using r by simp
  from r' se' ou' ne' sy' ge' k1 k2 y0 y1 y2
  have "\<exists>org s'. newOrganism 1024 2 3 init_state = Inr (org, s') \<and>
     sensors org = [1, 2] \<and> outputs org = [3, 4, 5] \<and>
     neurons org = [(1, 0), (2, 1), (3, 2), (4, 3), (5, 4)] \<and>
     synapses org = [(6, 0), (7, 1), (8, 2)] \<and>
     genes org = [NeuronGene 0, NeuronGene 1, NeuronGene 2, NeuronGene 3, NeuronGene 4,
                  SynapseGene 0, SynapseGene 1, SynapseGene 2] \<and>
     n_kind (nheap s' 1) = sensorNeuron \<and> n_kind (nheap s' 2) = outputNeuron \<and>
     sheap s' 0 = fresh_synapse 6 1 3 6 \<and>
     sheap s' 1 = fresh_synapse 7 2 4 7 \<and>
     sheap s' 2 = fresh_synapse 8 1 5 8"
    by (intro exI [of _ org] exI [of _ s'] conjI)
  with b1 b2 show ?thesis by (intro conjI)
qed

section \<open>The operations keep genomes\<close>

text \<open>
  \<open>process\<close>, \<open>toggleEnabled\<close> and \<open>mutateWeight\<close> write no id, kind or source neuron, so
  every genome stays one; \<open>clone\<close> and \<open>mate\<close> return genomes and keep their arguments;
  the genomes of the tests are genomes.
\<close>

lemma same_ident_refl [simp]: "same_ident s s"
  by (simp add: same_ident_def)

lemma same_ident_trans: "same_ident s s1 \<Longrightarrow> same_ident s1 s2 \<Longrightarrow> same_ident s s2"
  by (simp add: same_ident_def)

lemma same_ident_upd:
  "(\<And>n. n_id (f n) = n_id n \<and> n_kind (f n) = n_kind n) \<Longrightarrow> same_ident s (upd_neuron p f s)"
  by (simp add: same_ident_def upd_neuron_def)

lemma same_ident_upd_trans:
  "(\<And>n. n_id (f n) = n_id n \<and> n_kind (f n) = n_kind n) \<Longrightarrow> same_ident (upd_neuron p f s) s'
     \<Longrightarrow> same_ident s s'"
  by (rule same_ident_trans [OF same_ident_upd])

lemma clear_all_ident: "same_ident s (clear_all al s)"
proof (induction al arbitrary: s)
  case Nil
  show ?case by simp
next
  case (Cons kp al)
  obtain k p where kp: "kp = (k, p)" by (cases kp)
  have "same_ident (upd_neuron p clear_neuron s) (clear_all al (upd_neuron p clear_neuron s))"
    by (rule Cons.IH)
  then have "same_ident s (clear_all al (upd_neuron p clear_neuron s))"
    by (rule same_ident_upd_trans [rotated]) (simp add: clear_neuron_def)
  then show ?case using kp by simp
qed

lemma add_inputs_ident: "add_inputs a kxs s = Inr s' \<Longrightarrow> same_ident s s'"
proof (induction kxs arbitrary: s)
  case Nil
  then show ?case by simp
next
  case (Cons kx kxs)
  obtain k x where kx: "kx = (k, x)" by (cases kx)
  from Cons.prems kx obtain p where p: "map_of (neurons a) k = Some p"
    and r: "add_inputs a kxs (upd_neuron p (\<lambda>n. n\<lparr>n_sum := n_sum n + x\<rparr>) s) = Inr s'"
    by (auto split: option.splits)
  from Cons.IH [OF r] show ?case by (rule same_ident_upd_trans [rotated]) simp
qed

lemma fire_ident: "fire a p ks (q, s) = Inr (q', s') \<Longrightarrow> same_ident s s'"
proof (induction ks arbitrary: q s)
  case Nil
  then show ?case by simp
next
  case (Cons k ks)
  from Cons.prems obtain y where y: "getSynapse a k = Some y"
    by (auto split: option.splits)
  show ?case
  proof (cases "s_enabled (sheap s y)")
    case False
    with Cons.prems y have "fire a p ks (q, s) = Inr (q', s')" by simp
    then show ?thesis by (rule Cons.IH)
  next
    case en: True
    let ?sig = "n_value (nheap s p) * s_weight (sheap s y)"
    from Cons.prems y en obtain t where t: "map_of (neurons a) (s_out (sheap s y)) = Some t"
      by (cases "map_of (neurons a) (s_out (sheap s y))") (simp_all add: Let_def)
    show ?thesis
    proof (cases "n_visited (nheap s t)")
      case True
      with Cons.prems y en t
      have "fire a p ks (q, upd_neuron t (\<lambda>n. n\<lparr>n_future := n_future n + ?sig\<rparr>) s)
          = Inr (q', s')" by simp
      from Cons.IH [OF this] show ?thesis by (rule same_ident_upd_trans [rotated]) simp
    next
      case nv: False
      let ?s1 = "upd_neuron t (\<lambda>n. n\<lparr>n_sum := n_sum n + ?sig\<rparr>) s"
      have seen1: "n_seen (nheap ?s1 t) = n_seen (nheap s t)" by simp
      show ?thesis
      proof (cases "n_seen (nheap s t)")
        case True
        with Cons.prems y en t nv seen1 have "fire a p ks (q, ?s1) = Inr (q', s')"
          by (simp add: Let_def)
        from Cons.IH [OF this] show ?thesis by (rule same_ident_upd_trans [rotated]) simp
      next
        case False
        with Cons.prems y en t nv seen1
        have "fire a p ks (q @ [Some t], upd_neuron t (\<lambda>n. n\<lparr>n_seen := True\<rparr>) ?s1)
            = Inr (q', s')" by (simp add: Let_def)
        from Cons.IH [OF this] have "same_ident (upd_neuron t (\<lambda>n. n\<lparr>n_seen := True\<rparr>) ?s1) s'" .
        then have "same_ident ?s1 s'" by (rule same_ident_upd_trans [rotated]) simp
        then show ?thesis by (rule same_ident_upd_trans [rotated]) simp
      qed
    qed
  qed
qed

lemma propagate_loop_ident: "propagate_loop cfg a q s = Inr s' \<Longrightarrow> same_ident s s'"
proof (induction cfg a q s rule: propagate_loop.induct)
  case (1 cfg org s)
  then show ?case by (simp add: propagate_loop.simps)
next
  case (2 cfg org q s)
  then show ?case by (simp add: propagate_loop.simps)
next
  case (3 cfg org p q s)
  let ?s1 = "upd_neuron p (\<lambda>n. n\<lparr>n_visited := True, n_value := actFunc cfg (n_sum n)\<rparr>) s"
  from "3.prems" have nv: "\<not> n_visited (nheap s p)"
    by (auto simp: propagate_loop.simps split: if_splits)
  from "3.prems" nv obtain q1 s1 where
    f: "fire org p (conns org (n_id (nheap s p))) (q, ?s1) = Inr (q1, s1)"
    and r: "propagate_loop cfg org q1 s1 = Inr s'"
    by (auto simp: propagate_loop.simps split: sum.splits)
  have e: "(q1, s1) = (q1, s1)" by simp
  have "same_ident s1 s'" using nv f e r by (rule "3.IH")
  moreover have "same_ident ?s1 s1" using f by (rule fire_ident)
  ultimately have "same_ident ?s1 s'" by (blast intro: same_ident_trans)
  then show ?case by (rule same_ident_upd_trans [rotated]) simp
qed

lemma process_ident:
  assumes "process cfg a input s = Inr (out, s')"
  shows "same_ident s s'"
proof -
  from assms obtain s2 where
    ai: "add_inputs a (zip (sensors a) input) (clear_all (neurons a) s) = Inr s2"
    and pr: "propagate cfg a s2 = Inr s'"
    by (auto simp: process_def split: if_splits sum.splits)
  have "same_ident s (clear_all (neurons a) s)" by (rule clear_all_ident)
  moreover have "same_ident (clear_all (neurons a) s) s2" using ai by (rule add_inputs_ident)
  moreover have "same_ident s2 s'" using pr unfolding propagate_def by (rule propagate_loop_ident)
  ultimately show ?thesis by (blast intro: same_ident_trans)
qed

lemma add_gene_ident: "same_ident s s' \<Longrightarrow> add_gene g s' org = add_gene g s org"
  by (cases g)
    (simp_all add: same_ident_def add_gene_def addNeuron_def addSynapse_def Let_def
      split: neuronKind.splits)

lemma replay_ident: "same_ident s s' \<Longrightarrow> replay s' gs org = replay s gs org"
  by (induction gs arbitrary: org) (simp_all add: replay_Cons add_gene_ident)

lemma gene_ok_ident: "same_ident s s' \<Longrightarrow> gene_ok s' g = gene_ok s g"
  by (simp add: same_ident_def gene_ok_def split: gene.splits)

lemma wf_genome_ident: "same_ident s s' \<Longrightarrow> wf_genome g s \<Longrightarrow> wf_genome g s'"
  by (simp add: wf_genome_def replay_ident gene_ok_ident list_all_iff)

lemma process_wf:
  "process cfg a input s = Inr (out, s') \<Longrightarrow> wf_genome g s \<Longrightarrow> wf_genome g s'"
  by (rule wf_genome_ident [OF process_ident])

lemma toggleEnabled_wf: "toggleEnabled a k s = Inr s' \<Longrightarrow> wf_genome g s \<Longrightarrow> wf_genome g s'"
  by (rule wf_genome_ident)
    (auto simp: toggleEnabled_def synapse_toggleEnabled_def same_ident_def split: option.splits)

lemma mutateWeight_wf: "mutateWeight cfg r a k s = Inr s' \<Longrightarrow> wf_genome g s \<Longrightarrow> wf_genome g s'"
  by (rule wf_genome_ident)
    (auto simp: mutateWeight_def synapse_mutateWeight_def same_ident_def split: option.splits)

lemma inherit_all_replay:
  "\<exists>hs. fst (inherit_all gs (off, s)) = replay (snd (inherit_all gs (off, s))) hs off \<and>
        (\<forall>g \<in> set hs. gene_ok (snd (inherit_all gs (off, s))) g)"
proof (induction gs arbitrary: off s)
  case Nil
  have "fst (inherit_all [] (off, s)) = replay (snd (inherit_all [] (off, s))) [] off" by simp
  then show ?case by (intro exI [of _ "[]"]) simp
next
  case (Cons g gs)
  let ?s1 = "snd (inherit g (off, s))"
  let ?g' = "fresh_gene s g"
  let ?off1 = "add_gene ?g' ?s1 off"
  let ?s' = "snd (inherit_all gs (?off1, ?s1))"
  have st: "inherit g (off, s) = (?off1, ?s1)" by (rule inherit_add_gene)
  have ok1: "gene_ok ?s1 ?g'" by (rule inherit_fresh_ok)
  have ex: "extends ?s1 ?s'" by (rule inherit_all_extends)
  from Cons.IH [of ?off1 ?s1] obtain hs where
    h: "fst (inherit_all gs (?off1, ?s1)) = replay ?s' hs ?off1"
    and hok: "\<forall>g \<in> set hs. gene_ok ?s' g" by blast
  have "deref ?s' ?g' = deref ?s1 ?g'" using ex ok1 by (rule deref_extends)
  then have "add_gene ?g' ?s' off = ?off1" by (rule add_gene_cong)
  then have "fst (inherit_all gs (?off1, ?s1)) = replay ?s' (?g' # hs) off"
    using h by (simp add: replay_Cons)
  moreover have "\<forall>g \<in> set (?g' # hs). gene_ok ?s' g"
    using hok gene_ok_extends [OF ex ok1] by simp
  moreover have "inherit_all (g # gs) (off, s) = inherit_all gs (?off1, ?s1)"
    using st by simp
  ultimately show ?case by (intro exI [of _ "?g' # hs"]) simp
qed

lemma add_gene_meta:
  "add_gene g s (org\<lparr>generation := k, fitness := x\<rparr>)
     = (add_gene g s org)\<lparr>generation := k, fitness := x\<rparr>"
  by (cases g)
    (simp_all add: add_gene_def addNeuron_def addSynapse_def Let_def conns_def
      split: neuronKind.splits)

lemma replay_meta:
  "replay s gs (org\<lparr>generation := k, fitness := x\<rparr>)
     = (replay s gs org)\<lparr>generation := k, fitness := x\<rparr>"
  by (induction gs arbitrary: org) (simp_all add: replay_Cons add_gene_meta)

lemma inherit_all_wf:
  assumes "genes off = []" and "sensors off = []" and "outputs off = []" and "neurons off = []"
    and "synapses off = []" and "connections off = []"
    and "inherit_all gs (off, s) = (off', s')"
  shows "wf_genome off' s'"
proof -
  from inherit_all_replay [of gs off s] assms(7) obtain hs where
    h: "off' = replay s' hs off" and hok: "\<forall>g \<in> set hs. gene_ok s' g" by auto
  have o: "off = empty_organism\<lparr>generation := generation off, fitness := fitness off\<rparr>"
    using assms(1-6) by (simp add: empty_organism_def)
  have g: "genes off' = hs" using h assms(1) by (simp add: genes_replay)
  have "off' = replay s' hs (empty_organism\<lparr>generation := generation off, fitness := fitness off\<rparr>)"
    using h o by simp
  then have e: "off' = (replay s' hs empty_organism)\<lparr>generation := generation off, fitness := fitness off\<rparr>"
    by (simp only: replay_meta)
  have "generation off' = generation off" "fitness off' = fitness off"
    by (subst e, simp)+
  with e have "off' = (replay s' hs empty_organism)\<lparr>generation := generation off', fitness := fitness off'\<rparr>"
    by simp
  then show ?thesis using g hok by (simp add: wf_genome_def list_all_iff)
qed

lemma wf_genome_extends: "extends s s' \<Longrightarrow> wf_genome g s \<Longrightarrow> wf_genome g s'"
  using replay_extends [of s s' "genes g" "empty_organism"]
    gene_ok_extends [of s s']
  by (auto simp: wf_genome_def list_all_iff)

lemma clone_wf:
  assumes "wf_genome g s" and "clone maxAlloc g s = Inr (c, s1)"
  shows "wf_genome c s1" and "wf_genome g s1"
proof -
  let ?e = "empty_organism"
  have c: "inherit_all (genes g) (?e, s) = (c, s1)"
    using assms(2) by (rule clone_returns)
  show "wf_genome c s1"
    by (rule inherit_all_wf [OF _ _ _ _ _ _ c]) (simp_all add: empty_organism_def)
  have "extends s s1" using inherit_all_extends [of s "genes g" ?e] c by simp
  then show "wf_genome g s1" using assms(1) by (rule wf_genome_extends)
qed

lemma mate_wf:
  assumes "wf_genome a s" and "wf_genome b s" and "mate maxAlloc a b s = Inr (off, s')"
  shows "wf_genome off s'" and "wf_genome a s'" and "wf_genome b s'"
proof -
  let ?e = "empty_organism
              \<lparr>generation := generation a + 1\<rparr>"
  let ?m = "merge_genes (getInnovation s) (fitness a > fitness b) (genes a) (genes b)"
  have oka: "\<forall>g \<in> set (genes a). gene_ok s g" using assms(1) by (rule wf_genome_ok)
  have okb: "\<forall>g \<in> set (genes b). gene_ok s g" using assms(2) by (rule wf_genome_ok)
  from assms(3) have ar: "length (sensors a) = length (sensors b)"
    "length (outputs a) = length (outputs b)"
    by (auto simp: mate_unfold split: if_splits)
  from assms(3) have al: "alloc_ok maxAlloc (length (sensors a)) (length (outputs a))"
    by (auto simp: mate_unfold split: if_splits)
  have m: "inherit_all ?m (?e, s) = (off, s')"
    using mate_eq [OF oka okb ar al] assms(3) by simp
  show "wf_genome off s'"
    by (rule inherit_all_wf [OF _ _ _ _ _ _ m]) (simp_all add: empty_organism_def)
  have ex: "extends s s'" using inherit_all_extends [of s ?m ?e] m by simp
  show "wf_genome a s'" using ex assms(1) by (rule wf_genome_extends)
  show "wf_genome b s'" using ex assms(2) by (rule wf_genome_extends)
qed

lemma wf_createSimpleRecurrent:
  "wf_genome (fst (createSimpleRecurrent init_state)) (snd (createSimpleRecurrent init_state))"
  by (simp add: wf_genome_def replay_def add_gene_def gene_ok_def createSimpleRecurrent_def
      build_defs)

lemma wf_sensorFeedsSensor:
  "wf_genome (fst (sensorFeedsSensor init_state)) (snd (sensorFeedsSensor init_state))"
  by (simp add: wf_genome_def replay_def add_gene_def gene_ok_def sensorFeedsSensor_def
      build_defs)

end
